theory Spec2Isabelle
  imports Complex_Main "HOL-Library.Sublist" "HOL-Library.AList"
begin

section \<open>Python strings\<close>

text \<open>
  A Python \<open>str\<close> is modelled as a \<open>string\<close>; every \<open>char\<close> stands for one code point
  below 256. \<open>str.strip()\<close> removes, at both ends, the code points for which
  \<open>str.isspace\<close> holds: in this range TAB, LF, VT, FF, CR, the separators 0x1C to 0x1F,
  the blank, NEL (0x85) and the no-break space (0xA0).
\<close>

definition py_isspace :: "char \<Rightarrow> bool" where
  "py_isspace c \<longleftrightarrow>
     c \<in> set [CHR 0x09, CHR 0x0A, CHR 0x0B, CHR 0x0C, CHR 0x0D, CHR 0x1C, CHR 0x1D,
              CHR 0x1E, CHR 0x1F, CHR 0x20, CHR 0x85, CHR 0xA0]"

definition strip :: "string \<Rightarrow> string" where
  "strip s = rev (dropWhile py_isspace (rev (dropWhile py_isspace s)))"

text \<open>\<open>sep.join(xs)\<close>\<close>

fun join :: "string \<Rightarrow> string list \<Rightarrow> string" where
  "join sep [] = []"
| "join sep [x] = x"
| "join sep (x # y # ys) = x @ sep @ join sep (y # ys)"

abbreviation TAB :: char where "TAB \<equiv> CHR 0x09"
abbreviation LF :: char where "LF \<equiv> CHR 0x0A"
abbreviation CR :: char where "CR \<equiv> CHR 0x0D"
abbreviation DQ :: char where "DQ \<equiv> CHR 0x22"
abbreviation NUL :: char where "NUL \<equiv> CHR 0x00"

text \<open>\<open>s.split('\n')\<close>: the pieces between line feeds; there is always at least one.\<close>

fun split_nl :: "string \<Rightarrow> string list" where
  "split_nl [] = [[]]"
| "split_nl (c # cs) =
     (let pieces = split_nl cs
      in if c = LF then [] # pieces else (c # hd pieces) # tl pieces)"

text \<open>\<open>s.replace(old, new)\<close> for a pattern \<open>old\<close> of one character.\<close>

definition py_replace :: "char \<Rightarrow> string \<Rightarrow> string \<Rightarrow> string" where
  "py_replace old new s = concat (map (\<lambda>c. if c = old then new else [c]) s)"

text \<open>\<open>str(n)\<close> for a natural number: its decimal digits.\<close>

definition digit_char :: "nat \<Rightarrow> char" where
  "digit_char d = char_of (48 + d)"

fun str_nat :: "nat \<Rightarrow> string" where
  "str_nat n = (if n < 10 then [digit_char n] else str_nat (n div 10) @ [digit_char (n mod 10)])"

declare str_nat.simps [simp del]

text \<open>
  \<open>xs[start:stop]\<close> for a Python sequence, which is also what \<open>DataFrame.iloc\<close> does with a
  slice: a negative bound counts from the end, and both bounds are clipped to the sequence.
\<close>

definition py_slice :: "'a list \<Rightarrow> int \<Rightarrow> int \<Rightarrow> 'a list" where
  "py_slice xs start stop =
     (let n = int (length xs);
          lo = (if start < 0 then max 0 (start + n) else min start n);
          hi = (if stop < 0 then max 0 (stop + n) else min stop n)
      in take (nat (hi - lo)) (drop (nat lo) xs))"

section \<open>Tables\<close>

text \<open>
  A cell of a data frame is a Python string, or a value of another type (a number, a
  boolean, a date, the missing value \<open>nan\<close>); of such a value the program only ever
  observes that it is not a string, and its string form \<open>str(v)\<close>, which is what
  \<open>NonStr\<close> carries.
\<close>

datatype cell = Str string | NonStr string

text \<open>
  The program reads three columns of a row. A table has its column labels, the labels of
  the columns on which pandas accepts the \<open>.str\<close> accessor (the columns whose inferred
  type is string-like or empty; on a numeric, boolean or date column the accessor raises
  \<open>AttributeError\<close>), and its rows in order.
\<close>

record row =
  Device_Model :: cell
  Serial_Number :: cell
  Version :: cell

record table =
  columns :: "string list"
  str_columns :: "string list"
  rows :: "row list"

datatype error =
    KeyError string
  | AttributeError
  | ZeroDivisionError
  | ExpatError
  | IndexError

text \<open>A column taken out of a table: \<open>df[label]\<close>.\<close>

record series =
  accepts_str :: bool
  cells :: "cell list"

definition cell_of :: "string \<Rightarrow> row \<Rightarrow> cell" where
  "cell_of label r =
     (if label = ''Device Model'' then Device_Model r
      else if label = ''Serial Number'' then Serial_Number r
      else Version r)"

definition getitem :: "table \<Rightarrow> string \<Rightarrow> error + series" where
  "getitem df label =
     (if label \<in> set (columns df)
      then Inr \<lparr>accepts_str = (label \<in> set (str_columns df)),
                cells = map (cell_of label) (rows df)\<rparr>
      else Inl (KeyError label))"

text \<open>
  \<open>series.str.strip()\<close>: the accessor is refused on a column that is not string-like; on
  an accepted column every string is stripped and every other value becomes the missing
  value (\<open>None\<close> here).
\<close>

definition stripped :: "cell \<Rightarrow> string option" where
  "stripped c = (case c of Str v \<Rightarrow> Some (strip v) | NonStr _ \<Rightarrow> None)"

definition str_strip :: "series \<Rightarrow> error + string option list" where
  "str_strip s = (if accepts_str s then Inr (map stripped (cells s)) else Inl AttributeError)"

text \<open>
  Elementwise comparisons of a stripped column. A missing value is equal to nothing,
  different from everything and a member of no list.
\<close>

definition eq_str :: "string option \<Rightarrow> string \<Rightarrow> bool" where
  "eq_str v t = (case v of Some s \<Rightarrow> s = t | None \<Rightarrow> False)"

definition ne_str :: "string option \<Rightarrow> string \<Rightarrow> bool" where
  "ne_str v t = (case v of Some s \<Rightarrow> s \<noteq> t | None \<Rightarrow> True)"

definition isin :: "string option \<Rightarrow> string list \<Rightarrow> bool" where
  "isin v ts = (case v of Some s \<Rightarrow> s \<in> set ts | None \<Rightarrow> False)"

section \<open>Configuration\<close>

definition CHUNK_SIZE :: int where
  "CHUNK_SIZE = 25000"

definition ALLOWED_VERSIONS :: "string list" where
  "ALLOWED_VERSIONS =
     [''R2.0.18.2'', ''R2.0.18'', ''R2.0.19'', ''R2.0.19.5'', ''R2.0.16'', ''R2.0.19.6'']"

definition DEVICE_MODELS :: "string list" where
  "DEVICE_MODELS =
     [''JIDU6601'', ''JIDU6611'', ''JIDU6401'', ''JIDU6701'', ''JIDU6801'',
      ''JIDU6101'', ''JIDU6111'', ''JIDU6311'', ''JIDU6411'', ''JIDU6811'', ''JIDU6911'']"

definition MANUFACTURER_MAP :: "(string \<times> string) list" where
  "MANUFACTURER_MAP =
     [(''JIDU6101'', ''Arcadyan''),
      (''JIDU6111'', ''Arcadyan''),
      (''JIDU6311'', ''Bluebank''),
      (''JIDU6401'', ''Sercomm''),
      (''JIDU6411'', ''Sercomm''),
      (''JIDU6601'', ''Speedtech''),
      (''JIDU6611'', ''Speedtech''),
      (''JIDU6701'', ''Skyworth''),
      (''JIDU6801'', ''Telpa''),
      (''JIDU6811'', ''Telpa''),
      (''JIDU6911'', ''Askey'')]"

section \<open>validate\_data\<close>

definition required_columns :: "string list" where
  "required_columns = [''Device Model'', ''Serial Number'', ''Version'']"

definition validate_data :: "table \<Rightarrow> bool \<times> string" where
  "validate_data df =
     (let missing_columns = filter (\<lambda>col. col \<notin> set (columns df)) required_columns
      in if missing_columns \<noteq> []
         then (False, ''Missing required columns: '' @ join '', '' missing_columns)
         else (True, ''Data validated successfully''))"

text \<open>
  The required labels that are absent, given which of the three are present: what the
  comprehension of \<open>validate_data\<close> computes.
\<close>

definition missing_of :: "bool \<Rightarrow> bool \<Rightarrow> bool \<Rightarrow> string list" where
  "missing_of d s v = (if d then [] else [''Device Model'']) @ (if s then [] else [''Serial Number''])
      @ (if v then [] else [''Version''])"

definition incomplete_table :: table where
  "incomplete_table =
     \<lparr>columns = [''Device Model'', ''Extra''], str_columns = [''Device Model'', ''Extra''],
      rows = []\<rparr>"

section \<open>create\_chunks\<close>

text \<open>
  The row mask of the filter. The four operands are built from left to right, so the first
  column that is absent, or on which \<open>.str\<close> is refused, decides the exception.
\<close>

definition filter_mask :: "table \<Rightarrow> string \<Rightarrow> string list \<Rightarrow> error + bool list" where
  "filter_mask df target_model allowed_versions =
     (case getitem df ''Device Model'' of Inl e \<Rightarrow> Inl e | Inr dm \<Rightarrow>
      case str_strip dm of Inl e \<Rightarrow> Inl e | Inr dms \<Rightarrow>
      case getitem df ''Serial Number'' of Inl e \<Rightarrow> Inl e | Inr sn \<Rightarrow>
      case str_strip sn of Inl e \<Rightarrow> Inl e | Inr sns \<Rightarrow>
      case getitem df ''Version'' of Inl e \<Rightarrow> Inl e | Inr ve \<Rightarrow>
      case str_strip ve of Inl e \<Rightarrow> Inl e | Inr ves \<Rightarrow>
        Inr (map (\<lambda>(m, s, v).
                    eq_str m target_model \<and> ne_str s [] \<and> ne_str v [] \<and> isin v allowed_versions)
                 (zip dms (zip sns ves))))"

text \<open>\<open>df[mask]\<close>: the rows whose mask entry is true, in order.\<close>

definition select_rows :: "row list \<Rightarrow> bool list \<Rightarrow> row list" where
  "select_rows rs keep = map fst (filter snd (zip rs keep))"

definition create_chunks ::
  "table \<Rightarrow> string \<Rightarrow> string list \<Rightarrow> int \<Rightarrow> error + row list list" where
  "create_chunks df target_model allowed_versions chunk_size =
     (case filter_mask df target_model allowed_versions of Inl e \<Rightarrow> Inl e | Inr keep \<Rightarrow>
      let filtered_df = select_rows (rows df) keep
      in if filtered_df = [] then Inr []
         else if chunk_size = 0 then Inl ZeroDivisionError
         else
           let n = int (length filtered_df);
               num_chunks = (n + chunk_size - 1) div chunk_size
           in Inr (map (\<lambda>i. py_slice filtered_df (int i * chunk_size)
                                       (min ((int i + 1) * chunk_size) n))
                       [0..<nat num_chunks]))"

subsection \<open>The frames in memory\<close>

text \<open>
  To say what \<open>create_chunks\<close> does to the frames it is given, the same function once more
  with the frames in a store: a frame is referred to by its position in the store, and
  every pandas operation that builds a frame (\<open>df[mask]\<close>, \<open>.copy()\<close>, \<open>.iloc[a:b]\<close>)
  puts a new one at the end. The function has no statement that assigns into a frame.
\<close>

type_synonym store = "table list"

definition new_frame :: "store \<Rightarrow> table \<Rightarrow> nat \<times> store" where
  "new_frame st t = (length st, st @ [t])"

fun slice_loop :: "store \<Rightarrow> nat \<Rightarrow> int \<Rightarrow> int \<Rightarrow> nat list \<Rightarrow> nat list \<Rightarrow> nat list \<times> store" where
  "slice_loop st filtered_df chunk_size n [] chunks = (chunks, st)"
| "slice_loop st filtered_df chunk_size n (i # rest) chunks =
     (let start_idx = int i * chunk_size;
          end_idx = min ((int i + 1) * chunk_size) n;
          src = st ! filtered_df;
          (view, st1) = new_frame st (src\<lparr>rows := py_slice (rows src) start_idx end_idx\<rparr>);
          (chunk_df, st2) = new_frame st1 (st1 ! view)
      in slice_loop st2 filtered_df chunk_size n rest (chunks @ [chunk_df]))"

definition create_chunks_st ::
  "store \<Rightarrow> nat \<Rightarrow> string \<Rightarrow> string list \<Rightarrow> int \<Rightarrow> (error + nat list) \<times> store" where
  "create_chunks_st st df target_model allowed_versions chunk_size =
     (case filter_mask (st ! df) target_model allowed_versions of
        Inl e \<Rightarrow> (Inl e, st)
      | Inr keep \<Rightarrow>
          let (selected, st1) =
                new_frame st ((st ! df)\<lparr>rows := select_rows (rows (st ! df)) keep\<rparr>);
              (filtered_df, st2) = new_frame st1 (st1 ! selected)
          in if rows (st2 ! filtered_df) = [] then (Inr [], st2)
             else if chunk_size = 0 then (Inl ZeroDivisionError, st2)
             else
               let n = int (length (rows (st2 ! filtered_df)));
                   num_chunks = (n + chunk_size - 1) div chunk_size
               in case slice_loop st2 filtered_df chunk_size n [0..<nat num_chunks] [] of
                    (chunks, st3) \<Rightarrow> (Inr chunks, st3))"

subsection \<open>What the filter decides, row by row\<close>

text \<open>
  The three columns can be read when they are present and pandas accepts \<open>.str\<close> on
  each of them.
\<close>

definition str_readable :: "table \<Rightarrow> bool" where
  "str_readable df \<longleftrightarrow>
     list_all (\<lambda>c. c \<in> set (columns df) \<and> c \<in> set (str_columns df)) required_columns"

definition row_passes :: "string \<Rightarrow> string list \<Rightarrow> row \<Rightarrow> bool" where
  "row_passes target_model allowed_versions r \<longleftrightarrow>
     eq_str (stripped (Device_Model r)) target_model \<and>
     ne_str (stripped (Serial_Number r)) [] \<and>
     ne_str (stripped (Version r)) [] \<and>
     isin (stripped (Version r)) allowed_versions"

text \<open>\<open>str(v)\<close> of a cell, and the tables all of whose cells are strings.\<close>

fun py_str :: "cell \<Rightarrow> string" where
  "py_str (Str s) = s"
| "py_str (NonStr s) = s"

fun is_str :: "cell \<Rightarrow> bool" where
  "is_str (Str s) = True"
| "is_str (NonStr s) = False"

definition string_rows :: "table \<Rightarrow> bool" where
  "string_rows df \<longleftrightarrow>
     list_all (\<lambda>r. is_str (Device_Model r) \<and> is_str (Serial_Number r) \<and> is_str (Version r))
              (rows df)"

definition filtered_rows :: "table \<Rightarrow> string \<Rightarrow> string list \<Rightarrow> row list" where
  "filtered_rows df target_model allowed_versions =
     filter (row_passes target_model allowed_versions) (rows df)"

section \<open>generate\_xml\_from\_chunk\<close>

text \<open>\<open>MANUFACTURER_MAP.get(device_model, "Unknown")\<close>\<close>

definition manufacturer_of :: "string \<Rightarrow> string" where
  "manufacturer_of device_model =
     (case map_of MANUFACTURER_MAP device_model of Some m \<Rightarrow> m | None \<Rightarrow> ''Unknown'')"

text \<open>
  A chunk is given by its rows; it has the columns of the table it was cut from. The
  element tree under the root \<open>serials\<close> is the list of its \<open>serial\<close> children, each one
  the triple of its \<open>Model\<close> attribute, its \<open>Manufacturer\<close> attribute and its text. The
  loop appends one child for every row whose serial number, as a string and stripped, is
  not empty.
\<close>

type_synonym serial_elem = "string \<times> string \<times> string"

definition serial_elems :: "row list \<Rightarrow> string \<Rightarrow> serial_elem list" where
  "serial_elems chunk_df device_model =
     (let manufacturer = manufacturer_of device_model
      in concat (map (\<lambda>r. let serial = strip (py_str (Serial_Number r))
                           in if serial \<noteq> [] then [(device_model, manufacturer, serial)] else [])
                     chunk_df))"

subsection \<open>The XML libraries\<close>

text \<open>
  \<open>ET.tostring(root, encoding='unicode')\<close> followed by \<open>minidom.parseString\<close>, as in CPython
  3.11. ElementTree writes text with \<open>&\<close>, \<open><\<close>, \<open>>\<close> as entities and attribute values
  with, in addition, the double quote, CR, LF and TAB as references; everything else is
  written as it is. The parser refuses (\<open>ExpatError\<close>) a document with a character that
  XML 1.0 does not allow: \<open>xml_code_point\<close> is the production \<open>Char\<close> of XML 1.0, which
  leaves out the control characters other than TAB, LF and CR, the surrogates, U+FFFE and
  U+FFFF. The strings of this theory have code points below 256 only, so of these only the
  control characters occur in them. The parser gives back the attribute values unchanged
  and the text with every line end (CR LF, or CR alone) turned into LF.
\<close>

definition xml_code_point :: "int \<Rightarrow> bool" where
  "xml_code_point n \<longleftrightarrow>
     n = 0x9 \<or> n = 0xA \<or> n = 0xD \<or> (0x20 \<le> n \<and> n \<le> 0xD7FF) \<or>
     (0xE000 \<le> n \<and> n \<le> 0xFFFD) \<or> (0x10000 \<le> n \<and> n \<le> 0x10FFFF)"

definition xml_char :: "char \<Rightarrow> bool" where
  "xml_char c \<longleftrightarrow> xml_code_point (of_char c)"

fun normalize_eol :: "string \<Rightarrow> string" where
  "normalize_eol [] = []"
| "normalize_eol [c] = (if c = CR then [LF] else [c])"
| "normalize_eol (c # d # cs) =
     (if c = CR \<and> d = LF then LF # normalize_eol cs
      else if c = CR then LF # normalize_eol (d # cs)
      else c # normalize_eol (d # cs))"

definition elem_chars_ok :: "serial_elem \<Rightarrow> bool" where
  "elem_chars_ok e =
     (case e of (m, f, t) \<Rightarrow> list_all xml_char m \<and> list_all xml_char f \<and> list_all xml_char t)"

definition parse_tostring :: "serial_elem list \<Rightarrow> error + serial_elem list" where
  "parse_tostring root_elem =
     (if list_all elem_chars_ok root_elem
      then Inr (map (\<lambda>(m, f, t). (m, f, normalize_eol t)) root_elem)
      else Inl ExpatError)"

text \<open>
  \<open>minidom._write_data\<close>: four replacements, one after the other, used for attribute values
  and for text alike.
\<close>

definition write_data :: "string \<Rightarrow> string" where
  "write_data d =
     py_replace (CHR ''>'') ''&gt;''
       (py_replace DQ ''&quot;''
         (py_replace (CHR ''<'') ''&lt;''
           (py_replace (CHR ''&'') ''&amp;'' d)))"

text \<open>
  \<open>dom.toprettyxml(indent="  ")\<close> on the document of a \<open>serials\<close> root: the declaration of
  minidom, then the root; an element with a single text child is written on one line,
  children are indented by two blanks, and a root without children is written as an empty
  tag.
\<close>

definition minidom_declaration :: string where
  "minidom_declaration = ''<?xml version='' @ [DQ] @ ''1.0'' @ [DQ] @ '' ?>''"

definition serial_line :: "serial_elem \<Rightarrow> string" where
  "serial_line e =
     (case e of (m, f, t) \<Rightarrow>
        ''  <serial Model='' @ [DQ] @ write_data m @ [DQ] @
        '' Manufacturer='' @ [DQ] @ write_data f @ [DQ] @ ''>'' @ write_data t @ ''</serial>'')"

definition toprettyxml :: "serial_elem list \<Rightarrow> string" where
  "toprettyxml document =
     minidom_declaration @ [LF] @
     (if document = [] then ''<serials/>'' @ [LF]
      else ''<serials>'' @ [LF] @ concat (map (\<lambda>e. serial_line e @ [LF]) document) @
           ''</serials>'' @ [LF])"

subsection \<open>The function\<close>

definition xml_declaration :: string where
  "xml_declaration =
     ''<?xml version='' @ [DQ] @ ''1.0'' @ [DQ] @ '' encoding='' @ [DQ] @ ''UTF-8'' @ [DQ] @ ''?>''"

definition keep_line :: "string \<Rightarrow> bool" where
  "keep_line line \<longleftrightarrow> strip line \<noteq> [] \<and> \<not> prefix ''<?xml'' (strip line)"

definition generate_xml_from_chunk :: "row list \<Rightarrow> string \<Rightarrow> nat \<Rightarrow> error + string" where
  "generate_xml_from_chunk chunk_df device_model chunk_number =
     (let root_elem = serial_elems chunk_df device_model
      in case parse_tostring root_elem of
           Inl e \<Rightarrow> Inl e
         | Inr document \<Rightarrow>
             let pretty_xml = toprettyxml document;
                 kept = filter keep_line (split_nl pretty_xml);
                 pretty_xml = join [LF] kept
             in Inr (xml_declaration @ [LF] @ pretty_xml))"

subsection \<open>What the elements must be like\<close>

text \<open>The stripped serial numbers of a chunk, as strings.\<close>

definition trimmed_serials :: "row list \<Rightarrow> string list" where
  "trimmed_serials chunk_df = map (\<lambda>r. strip (py_str (Serial_Number r))) chunk_df"

text \<open>
  An element is written on one line when its characters are ones XML allows, its model has
  no line feed, and its text has neither a line feed nor a carriage return (which the
  parser turns into a line feed).
\<close>

definition one_line_elem :: "serial_elem \<Rightarrow> bool" where
  "one_line_elem e =
     (case e of (m, f, t) \<Rightarrow>
        list_all xml_char m \<and> LF \<notin> set m \<and>
        list_all xml_char t \<and> LF \<notin> set t \<and> CR \<notin> set t)"


text \<open>What \<open>write_data\<close> makes of one character.\<close>

definition escape_char :: "char \<Rightarrow> string" where
  "escape_char c =
     (if c = CHR ''&'' then ''&amp;'' else if c = CHR ''<'' then ''&lt;''
      else if c = DQ then ''&quot;'' else if c = CHR ''>'' then ''&gt;'' else [c])"


section \<open>Reading a document back\<close>









section \<open>process\_data\_to\_xml\<close>

text \<open>
  The result is a dictionary from device model to a list of pairs of file name and
  document. Python dictionaries keep their keys in the order of first insertion, which is
  what an association list with \<open>AList.update\<close> does.
\<close>

type_synonym xml_files = "(string \<times> string) list"

text \<open>\<open>f"{device_model}_Chunk{chunk_num}.xml"\<close>\<close>

definition chunk_filename :: "string \<Rightarrow> nat \<Rightarrow> string" where
  "chunk_filename device_model chunk_num = device_model @ ''_Chunk'' @ str_nat chunk_num @ ''.xml''"

text \<open>The inner loop, over \<open>enumerate(chunks, 1)\<close>.\<close>

fun render_chunks :: "string \<Rightarrow> nat \<Rightarrow> row list list \<Rightarrow> xml_files \<Rightarrow> error + xml_files" where
  "render_chunks device_model chunk_num [] xml_files = Inr xml_files"
| "render_chunks device_model chunk_num (chunk_df # rest) xml_files =
     (case generate_xml_from_chunk chunk_df device_model chunk_num of
        Inl e \<Rightarrow> Inl e
      | Inr xml_content \<Rightarrow>
          render_chunks device_model (chunk_num + 1) rest
            (xml_files @ [(chunk_filename device_model chunk_num, xml_content)]))"

text \<open>The outer loop, over the device models.\<close>

fun process_models ::
  "table \<Rightarrow> string list \<Rightarrow> (string \<times> xml_files) list \<Rightarrow> error + (string \<times> xml_files) list" where
  "process_models df [] all_xml_files = Inr all_xml_files"
| "process_models df (device_model # rest) all_xml_files =
     (case create_chunks df device_model ALLOWED_VERSIONS CHUNK_SIZE of
        Inl e \<Rightarrow> Inl e
      | Inr chunks \<Rightarrow>
          if chunks \<noteq> []
          then (case render_chunks device_model 1 chunks [] of
                  Inl e \<Rightarrow> Inl e
                | Inr xml_files \<Rightarrow>
                    process_models df rest (AList.update device_model xml_files all_xml_files))
          else process_models df rest all_xml_files)"

definition process_data_to_xml :: "table \<Rightarrow> error + (string \<times> xml_files) list" where
  "process_data_to_xml df = process_models df DEVICE_MODELS []"

text \<open>Whether the chunker returns at least one chunk for a model.\<close>

definition has_chunks :: "table \<Rightarrow> string \<Rightarrow> bool" where
  "has_chunks df device_model =
     (case create_chunks df device_model ALLOWED_VERSIONS CHUNK_SIZE of
        Inl e \<Rightarrow> False
      | Inr chunks \<Rightarrow> chunks \<noteq> [])"

text \<open>
  The files of a model in the result: the chunker returned at least one chunk, and the
  inner loop turned the chunks into these files.
\<close>

definition rendered :: "table \<Rightarrow> string \<Rightarrow> xml_files \<Rightarrow> bool" where
  "rendered df m files \<longleftrightarrow>
     (\<exists>chunks. create_chunks df m ALLOWED_VERSIONS CHUNK_SIZE = Inr chunks \<and> chunks \<noteq> [] \<and>
               render_chunks m 1 chunks [] = Inr files)"

section \<open>create\_zip\_file\<close>

text \<open>
  The archive is modelled by its entries in the order they are written, each a name and
  its bytes. \<open>ZipFile.writestr(name, data)\<close> (CPython 3.11) cuts the name at its first NUL
  character, encodes a string as UTF-8, and looks at the last character of the name, which
  raises \<open>IndexError\<close> when the name is empty.
\<close>

definition utf8_encode :: "string \<Rightarrow> string" where
  "utf8_encode s =
     concat (map (\<lambda>c. if (of_char c :: nat) < 128 then [c]
                       else [char_of (192 + (of_char c :: nat) div 64),
                             char_of (128 + (of_char c :: nat) mod 64)]) s)"

type_synonym archive = "(string \<times> string) list"

definition writestr :: "archive \<Rightarrow> string \<Rightarrow> string \<Rightarrow> error + archive" where
  "writestr zipf arcname data =
     (let filename = takeWhile (\<lambda>c. c \<noteq> NUL) arcname
      in if filename = [] then Inl IndexError
         else Inr (zipf @ [(filename, utf8_encode data)]))"

fun write_files :: "archive \<Rightarrow> xml_files \<Rightarrow> error + archive" where
  "write_files zipf [] = Inr zipf"
| "write_files zipf ((filename, xml_content) # rest) =
     (case writestr zipf filename xml_content of
        Inl e \<Rightarrow> Inl e
      | Inr zipf' \<Rightarrow> write_files zipf' rest)"

fun write_models :: "archive \<Rightarrow> (string \<times> xml_files) list \<Rightarrow> error + archive" where
  "write_models zipf [] = Inr zipf"
| "write_models zipf ((device_model, files) # rest) =
     (case write_files zipf files of
        Inl e \<Rightarrow> Inl e
      | Inr zipf' \<Rightarrow> write_models zipf' rest)"

definition create_zip_file :: "(string \<times> xml_files) list \<Rightarrow> error + archive" where
  "create_zip_file xml_files_dict = write_models [] xml_files_dict"

text \<open>
  The entry a pair of file name and document is meant to become, and the mappings all of
  whose file names are not empty and free of NUL.
\<close>

definition entry_of :: "string \<times> string \<Rightarrow> string \<times> string" where
  "entry_of p = (case p of (fn, doc) \<Rightarrow> (fn, utf8_encode doc))"

definition well_named :: "(string \<times> xml_files) list \<Rightarrow> bool" where
  "well_named d \<longleftrightarrow>
     list_all (\<lambda>(m, files). list_all (\<lambda>(fn, doc). fn \<noteq> [] \<and> NUL \<notin> set fn) files) d"

section \<open>Example tables\<close>

definition scenario_table :: table where
  "scenario_table =
     \<lparr>columns = [''Device Model'', ''Serial Number'', ''Version''],
      str_columns = [''Device Model'', ''Serial Number'', ''Version''],
      rows = [\<lparr>Device_Model = Str ''JIDU6601'', Serial_Number = Str '' SN1 '',
               Version = Str ''R2.0.19''\<rparr>,
              \<lparr>Device_Model = Str ''JIDU6601'', Serial_Number = Str [],
               Version = Str ''R2.0.19''\<rparr>,
              \<lparr>Device_Model = Str ''JIDU6701'', Serial_Number = Str ''SN2'',
               Version = Str ''R9.9.9''\<rparr>]\<rparr>"

definition three_rows_table :: table where
  "three_rows_table =
     \<lparr>columns = [''Device Model'', ''Serial Number'', ''Version'', ''Site''],
      str_columns = [''Device Model'', ''Serial Number'', ''Version'', ''Site''],
      rows = [\<lparr>Device_Model = Str ''JIDU6601'', Serial_Number = Str ''SN1'',
               Version = Str ''R2.0.19''\<rparr>,
              \<lparr>Device_Model = Str ''JIDU6601 '', Serial_Number = Str ''SN2'',
               Version = Str '' R2.0.16''\<rparr>,
              \<lparr>Device_Model = Str ''JIDU6601'', Serial_Number = Str ''SN3'',
               Version = Str ''R2.0.18.2''\<rparr>]\<rparr>"

definition one_serial_document :: "string \<Rightarrow> string \<Rightarrow> string \<Rightarrow> string" where
  "one_serial_document m f t =
     xml_declaration @ [LF] @ ''<serials>'' @ [LF] @
     ''  <serial Model='' @ [DQ] @ m @ [DQ] @ '' Manufacturer='' @ [DQ] @ f @
     [DQ] @ ''>'' @ t @ ''</serial>'' @ [LF] @ ''</serials>''"

definition two_models_table :: table where
  "two_models_table =
     \<lparr>columns = [''Device Model'', ''Serial Number'', ''Version''],
      str_columns = [''Device Model'', ''Serial Number'', ''Version''],
      rows = [\<lparr>Device_Model = Str ''JIDU6701'', Serial_Number = Str ''SNB'',
               Version = Str ''R2.0.16''\<rparr>,
              \<lparr>Device_Model = Str ''JIDU6601'', Serial_Number = Str ''SNA'',
               Version = Str ''R2.0.19.6''\<rparr>]\<rparr>"

definition two_models_output :: "(string \<times> xml_files) list" where
  "two_models_output =
     [(''JIDU6601'', [(''JIDU6601_Chunk1.xml'', one_serial_document ''JIDU6601'' ''Speedtech'' ''SNA'')]),
      (''JIDU6701'', [(''JIDU6701_Chunk1.xml'', one_serial_document ''JIDU6701'' ''Skyworth'' ''SNB'')])]"

text \<open>A table of 25002 rows, 25001 of them of one model.\<close>

definition row_6601 :: row where
  "row_6601 = \<lparr>Device_Model = Str '' JIDU6601'', Serial_Number = Str ''SN1 '', Version = Str ''R2.0.19''\<rparr>"

definition row_6401 :: row where
  "row_6401 = \<lparr>Device_Model = Str ''JIDU6401'', Serial_Number = Str ''SNX'', Version = Str '' R2.0.16 ''\<rparr>"

definition big_table :: table where
  "big_table =
     \<lparr>columns = [''Device Model'', ''Serial Number'', ''Version''],
      str_columns = [''Device Model'', ''Serial Number'', ''Version''],
      rows = row_6401 # replicate 25001 row_6601\<rparr>"

definition repeated_document :: "nat \<Rightarrow> string" where
  "repeated_document n =
     xml_declaration @ [LF] @ ''<serials>'' @
     concat (replicate n ([LF] @ ''  <serial Model='' @ [DQ] @ ''JIDU6601'' @ [DQ] @
                          '' Manufacturer='' @ [DQ] @ ''Speedtech'' @ [DQ] @ ''>SN1</serial>'')) @
     [LF] @ ''</serials>''"

definition big_output :: "(string \<times> xml_files) list" where
  "big_output =
     [(''JIDU6601'', [(''JIDU6601_Chunk1.xml'', repeated_document 25000),
                      (''JIDU6601_Chunk2.xml'', repeated_document 1)]),
      (''JIDU6401'', [(''JIDU6401_Chunk1.xml'', one_serial_document ''JIDU6401'' ''Sercomm'' ''SNX'')])]"

definition numeric_serial_table :: table where
  "numeric_serial_table =
     \<lparr>columns = [''Device Model'', ''Serial Number'', ''Version''],
      str_columns = [''Device Model'', ''Version''],
      rows = [\<lparr>Device_Model = Str ''JIDU6601'', Serial_Number = NonStr ''123456'',
               Version = Str ''R2.0.19''\<rparr>]\<rparr>"

definition blank_cell_table :: table where
  "blank_cell_table =
     \<lparr>columns = [''Device Model'', ''Serial Number'', ''Version''],
      str_columns = [''Device Model'', ''Serial Number'', ''Version''],
      rows = [\<lparr>Device_Model = Str '' JIDU6601 '', Serial_Number = NonStr ''nan'',
               Version = Str ''R2.0.19 ''\<rparr>,
              \<lparr>Device_Model = Str ''JIDU6601'', Serial_Number = Str ''  '',
               Version = Str ''R2.0.19''\<rparr>,
              \<lparr>Device_Model = Str ''JIDU6601'', Serial_Number = Str ''SN1'',
               Version = Str ''R2.0.19''\<rparr>]\<rparr>"

definition nan_document :: string where
  "nan_document =
     xml_declaration @ [LF] @ ''<serials>'' @ [LF] @
     ''  <serial Model='' @ [DQ] @ ''JIDU6601'' @ [DQ] @ '' Manufacturer='' @ [DQ] @ ''Speedtech'' @
     [DQ] @ ''>nan</serial>'' @ [LF] @
     ''  <serial Model='' @ [DQ] @ ''JIDU6601'' @ [DQ] @ '' Manufacturer='' @ [DQ] @ ''Speedtech'' @
     [DQ] @ ''>SN1</serial>'' @ [LF] @ ''</serials>''"

definition multi_line_row :: row where
  "multi_line_row =
     \<lparr>Device_Model = Str ''X'', Serial_Number = Str (''A'' @ [LF] @ ''B''), Version = Str ''v''\<rparr>"

definition multi_line_document :: string where
  "multi_line_document =
     xml_declaration @ [LF] @ ''<serials>'' @ [LF] @
     ''  <serial Model='' @ [DQ] @ ''X'' @ [DQ] @ '' Manufacturer='' @ [DQ] @ ''Unknown'' @ [DQ] @
     ''>A'' @ [LF] @ ''B</serial>'' @ [LF] @ ''</serials>''"

definition padded_chunk :: "row list" where
  "padded_chunk =
     [\<lparr>Device_Model = Str ''JIDU6601'', Serial_Number = Str ''  SN1 '', Version = Str ''R2.0.19''\<rparr>,
      \<lparr>Device_Model = Str ''JIDU6601'', Serial_Number = Str ''  '', Version = Str ''R2.0.19''\<rparr>,
      \<lparr>Device_Model = Str ''JIDU6601'', Serial_Number = Str (''A'' @ [TAB] @ ''B''),
       Version = Str ''R2.0.19''\<rparr>,
      \<lparr>Device_Model = Str ''JIDU6601'', Serial_Number = Str ''a<b&c'', Version = Str ''R2.0.19''\<rparr>]"




section \<open>Properties of the chunker\<close>

lemma concat_take_drop:
  "concat (map (\<lambda>i. take k (drop (i * k) xs)) [0..<m]) = take (m * k) xs"
proof (induction m)
  case 0
  show ?case by simp
next
  case (Suc m)
  have "take (m * k + k) xs = take (m * k) xs @ take k (drop (m * k) xs)"
    by (rule take_add)
  with Suc show ?case by (simp add: add.commute)
qed

lemma py_slice_of_nat:
  "py_slice xs (int a) (int b) =
     take (min b (length xs) - min a (length xs)) (drop (min a (length xs)) xs)"
proof -
  have lo: "min (int a) (int (length xs)) = int (min a (length xs))"
    by (simp only: of_nat_min)
  have hi: "min (int b) (int (length xs)) = int (min b (length xs))"
    by (simp only: of_nat_min)
  have d: "nat (int (min b (length xs)) - int (min a (length xs)))
             = min b (length xs) - min a (length xs)"
    by linarith
  have "py_slice xs (int a) (int b) =
          take (nat (int (min b (length xs)) - int (min a (length xs))))
               (drop (nat (int (min a (length xs)))) xs)"
    unfolding py_slice_def Let_def lo hi by simp
  then show ?thesis
    unfolding d by simp
qed

lemma py_slice_chunk:
  assumes "0 < k" "i * k < length xs"
  shows "py_slice xs (int i * int k) (min ((int i + 1) * int k) (int (length xs)))
         = take k (drop (i * k) xs)"
proof -
  have a: "int i * int k = int (i * k)" by simp
  have b: "min ((int i + 1) * int k) (int (length xs)) = int (min (i * k + k) (length xs))"
    by (simp only: of_nat_min of_nat_add of_nat_mult) (simp add: algebra_simps)
  have "take (min (i * k + k) (length xs) - i * k) (drop (i * k) xs) = take k (drop (i * k) xs)"
    using assms by (simp add: min_def)
  then show ?thesis
    unfolding a b py_slice_of_nat using assms by (simp add: min_def)
qed

lemma map_zip3:
  "map F (zip (map f xs) (zip (map g xs) (map h xs))) = map (\<lambda>x. F (f x, g x, h x)) xs"
  by (induction xs) simp_all

lemma select_rows_map: "select_rows rs (map P rs) = filter P rs"
  unfolding select_rows_def by (induction rs) simp_all

lemma filter_mask_readable:
  assumes "str_readable df"
  shows "filter_mask df M allowed = Inr (map (row_passes M allowed) (rows df))"
proof -
  have c: "''Device Model'' \<in> set (columns df)" "''Serial Number'' \<in> set (columns df)"
          "''Version'' \<in> set (columns df)"
      and s: "''Device Model'' \<in> set (str_columns df)" "''Serial Number'' \<in> set (str_columns df)"
          "''Version'' \<in> set (str_columns df)"
    using assms by (simp_all add: str_readable_def required_columns_def)
  have g1: "getitem df ''Device Model'' =
              Inr \<lparr>accepts_str = True, cells = map Device_Model (rows df)\<rparr>"
    using c s by (simp add: getitem_def cell_of_def)
  have g2: "getitem df ''Serial Number'' =
              Inr \<lparr>accepts_str = True, cells = map Serial_Number (rows df)\<rparr>"
    using c s by (simp add: getitem_def cell_of_def)
  have g3: "getitem df ''Version'' =
              Inr \<lparr>accepts_str = True, cells = map Version (rows df)\<rparr>"
    using c s by (simp add: getitem_def cell_of_def)
  show ?thesis
    unfolding filter_mask_def g1 g2 g3
    by (simp add: str_strip_def map_zip3 row_passes_def)
qed

lemma ceil_nat:
  assumes "0 < k"
  shows "nat ((int n + int k - 1) div int k) = (n + k - 1) div k"
proof -
  have e: "int n + int k - 1 = int (n + k - 1)" using assms by linarith
  have "int (n + k - 1) div int k = int ((n + k - 1) div k)"
    by (simp only: zdiv_int)
  then show ?thesis unfolding e by (simp only: nat_int)
qed

lemma ceil_cover:
  assumes "0 < (k::nat)"
  shows "n \<le> ((n + k - 1) div k) * k"
proof -
  have "(n + k - 1) = ((n + k - 1) div k) * k + (n + k - 1) mod k" by simp
  moreover have "(n + k - 1) mod k < k" using assms by simp
  ultimately show ?thesis by linarith
qed

lemma ceil_below:
  assumes "0 < (k::nat)"
  shows "((n + k - 1) div k) * k < n + k"
proof -
  have "((n + k - 1) div k) * k \<le> n + k - 1" by simp
  then show ?thesis using assms by linarith
qed

lemma ceil_pos:
  assumes "0 < (k::nat)" "0 < n"
  shows "0 < (n + k - 1) div k"
  using assms by (simp add: div_greater_zero_iff)

lemma ceil_real:
  assumes "0 < (k::nat)"
  shows "\<lceil>real n / real k\<rceil> = int ((n + k - 1) div k)"
proof (rule ceiling_unique)
  let ?m = "(n + k - 1) div k"
  have kr: "0 < real k" using assms by simp
  have "real (?m * k) < real (n + k)" using ceil_below[OF assms, of n] by (simp only: of_nat_less_iff)
  then have "(real ?m - 1) * real k < real n" by (simp add: algebra_simps)
  then show "real_of_int (int ?m) - 1 < real n / real k"
    using kr by (simp add: pos_less_divide_eq)
  have "real n \<le> real (?m * k)" using ceil_cover[OF assms, of n] by (simp only: of_nat_le_iff)
  then show "real n / real k \<le> real_of_int (int ?m)"
    using kr by (simp add: pos_divide_le_eq)
qed


lemma chunk_index_in_range:
  assumes "0 < (k::nat)" "i < (n + k - 1) div k"
  shows "i * k < n"
proof -
  have "Suc i \<le> (n + k - 1) div k" using assms(2) by simp
  then have "Suc i * k \<le> ((n + k - 1) div k) * k" by (rule mult_le_mono1)
  also have "\<dots> < n + k" by (rule ceil_below[OF assms(1)])
  finally show ?thesis by simp
qed

lemma create_chunks_readable:
  assumes "str_readable df" "0 < s"
  shows "create_chunks df M allowed s =
           Inr (map (\<lambda>i. take (nat s) (drop (i * nat s) (filter (row_passes M allowed) (rows df))))
                    [0..<(length (filter (row_passes M allowed) (rows df)) + nat s - 1) div nat s])"
proof -
  define xs where "xs = filter (row_passes M allowed) (rows df)"
  define k where "k = nat s"
  have k: "0 < k" "s = int k" using assms(2) by (simp_all add: k_def)
  show ?thesis
  proof (cases "xs = []")
    case True
    then show ?thesis
      using k by (simp add: create_chunks_def filter_mask_readable[OF assms(1)] select_rows_map
          xs_def[symmetric] k_def[symmetric])
  next
    case False
    have n: "nat ((int (length xs) + int k - 1) div int k) = (length xs + k - 1) div k"
      by (rule ceil_nat[OF k(1)])
    have m: "map (\<lambda>i. py_slice xs (int i * int k) (min ((int i + 1) * int k) (int (length xs))))
                 [0..<(length xs + k - 1) div k]
             = map (\<lambda>i. take k (drop (i * k) xs)) [0..<(length xs + k - 1) div k]"
    proof (rule map_cong[OF refl])
      fix i assume "i \<in> set [0..<(length xs + k - 1) div k]"
      then have "i * k < length xs" using chunk_index_in_range[OF k(1)] by simp
      then show "py_slice xs (int i * int k) (min ((int i + 1) * int k) (int (length xs)))
                 = take k (drop (i * k) xs)"
        by (rule py_slice_chunk[OF k(1)])
    qed
    have "create_chunks df M allowed (int k) =
            Inr (map (\<lambda>i. py_slice xs (int i * int k) (min ((int i + 1) * int k) (int (length xs))))
                     [0..<nat ((int (length xs) + int k - 1) div int k)])"
      using False k(1)
      by (simp add: create_chunks_def filter_mask_readable[OF assms(1)] select_rows_map
          xs_def[symmetric] Let_def)
    then have "create_chunks df M allowed (int k) =
            Inr (map (\<lambda>i. take k (drop (i * k) xs)) [0..<(length xs + k - 1) div k])"
      unfolding n m .
    then show ?thesis
      unfolding k(2)[symmetric] unfolding xs_def k_def .
  qed
qed


lemma div_quot_rem: "j < k \<Longrightarrow> (q * k + j) div (k::nat) = q"
  by simp

lemma last_chunk_length:
  assumes "0 < (k::nat)" "0 < n"
  shows "n - ((n + k - 1) div k - 1) * k = (if n mod k = 0 then k else n mod k)"
proof (cases "n mod k = 0")
  case True
  define q where "q = n div k"
  have "q * k + n mod k = n" unfolding q_def by (rule div_mult_mod_eq)
  with True have q: "n = q * k" by simp
  with assms have "0 < q" by (cases q) simp_all
  have "k - 1 < k" using assms(1) by simp
  then have "(q * k + (k - 1)) div k = q" by (rule div_quot_rem)
  moreover have "q * k + k - 1 = q * k + (k - 1)" using assms(1) by linarith
  ultimately have "(q * k + k - 1) div k = q" by (simp only:)
  then show ?thesis using True q \<open>0 < q\<close> assms(1) by (simp add: diff_mult_distrib)
next
  case False
  define q r where "q = n div k" and "r = n mod k"
  have n: "n = q * k + r" and r: "0 < r" "r < k"
    using False assms(1) by (simp_all add: q_def r_def)
  have e: "n + k - 1 = (q + 1) * k + (r - 1)" using n r by (simp add: algebra_simps)
  have "r - 1 < k" using r by simp
  then have "((q + 1) * k + (r - 1)) div k = q + 1" by (rule div_quot_rem)
  then have "(n + k - 1) div k = q + 1" by (simp only: e)
  then show ?thesis using False n r by (simp add: r_def[symmetric])
qed


lemma row_passes_strings:
  assumes "is_str (Device_Model r)" "is_str (Serial_Number r)" "is_str (Version r)"
  shows "row_passes M allowed r \<longleftrightarrow>
           strip (py_str (Device_Model r)) = M \<and> strip (py_str (Serial_Number r)) \<noteq> [] \<and>
           strip (py_str (Version r)) \<noteq> [] \<and> strip (py_str (Version r)) \<in> set allowed"
proof -
  obtain m where m: "Device_Model r = Str m" using assms(1) by (cases "Device_Model r") simp_all
  obtain s where s: "Serial_Number r = Str s" using assms(2) by (cases "Serial_Number r") simp_all
  obtain v where v: "Version r = Str v" using assms(3) by (cases "Version r") simp_all
  show ?thesis
    by (simp add: row_passes_def m s v stripped_def eq_str_def ne_str_def isin_def)
qed

lemma chunks_concat:
  assumes "0 < (k::nat)"
  shows "concat (map (\<lambda>i. take k (drop (i * k) xs)) [0..<(length xs + k - 1) div k]) = xs"
  using ceil_cover[OF assms, of "length xs"] by (simp add: concat_take_drop)

text \<open>
  On a table whose three columns hold strings, the filter is the one of the specification:
  a row is in a chunk exactly when its trimmed device model is the target, its trimmed
  serial number is not empty, and its trimmed version is not empty and allowed.
\<close>

lemma create_chunks_membership_strings:
  assumes "str_readable df" and "string_rows df" and "0 < chunk_size"
  shows "\<exists>chunks. create_chunks df M allowed chunk_size = Inr chunks \<and>
           (\<forall>r. (\<exists>c \<in> set chunks. r \<in> set c) \<longleftrightarrow>
                  r \<in> set (rows df) \<and>
                  strip (py_str (Device_Model r)) = M \<and>
                  strip (py_str (Serial_Number r)) \<noteq> [] \<and>
                  strip (py_str (Version r)) \<noteq> [] \<and>
                  strip (py_str (Version r)) \<in> set allowed)"
proof -
  define xs where "xs = filter (row_passes M allowed) (rows df)"
  define chunks where
    "chunks = map (\<lambda>i. take (nat chunk_size) (drop (i * nat chunk_size) xs))
                  [0..<(length xs + nat chunk_size - 1) div nat chunk_size]"
  have k: "0 < nat chunk_size" using assms(3) by simp
  have c: "create_chunks df M allowed chunk_size = Inr chunks"
    unfolding chunks_def xs_def by (rule create_chunks_readable[OF assms(1,3)])
  have "concat chunks = xs" unfolding chunks_def by (rule chunks_concat[OF k])
  then have u: "(\<exists>c \<in> set chunks. r \<in> set c) \<longleftrightarrow> r \<in> set xs" for r
    by (metis UN_iff set_concat)
  have "r \<in> set xs \<longleftrightarrow>
          r \<in> set (rows df) \<and>
          strip (py_str (Device_Model r)) = M \<and>
          strip (py_str (Serial_Number r)) \<noteq> [] \<and>
          strip (py_str (Version r)) \<noteq> [] \<and>
          strip (py_str (Version r)) \<in> set allowed" for r
  proof (cases "r \<in> set (rows df)")
    case True
    with assms(2) have "is_str (Device_Model r)" "is_str (Serial_Number r)" "is_str (Version r)"
      by (simp_all add: string_rows_def list_all_iff)
    from row_passes_strings[OF this] True show ?thesis by (simp add: xs_def)
  next
    case False
    then show ?thesis by (simp add: xs_def)
  qed
  with u c show ?thesis by simp
qed

text \<open>
  Claim C2. When the filter keeps \<open>n > 0\<close> rows and the chunk size \<open>s\<close> is positive,
  \<open>create_chunks\<close> returns \<open>\<lceil>n / s\<rceil>\<close> chunks; every chunk but the last has \<open>s\<close> rows, the
  last has \<open>n mod s\<close> rows (\<open>s\<close> when that is 0), the chunks put end to end are the kept rows
  in their order, and their lengths add up to \<open>n\<close>.
\<close>

theorem create_chunks_partition:
  assumes "str_readable df" and "0 < s" and "filtered_rows df M allowed \<noteq> []"
  shows "\<exists>chunks. create_chunks df M allowed s = Inr chunks \<and>
           int (length chunks) = \<lceil>real (length (filtered_rows df M allowed)) / real_of_int s\<rceil> \<and>
           (\<forall>i. i + 1 < length chunks \<longrightarrow> int (length (chunks ! i)) = s) \<and>
           int (length (last chunks)) =
             (if int (length (filtered_rows df M allowed)) mod s = 0 then s
              else int (length (filtered_rows df M allowed)) mod s) \<and>
           concat chunks = filtered_rows df M allowed \<and>
           sum_list (map length chunks) = length (filtered_rows df M allowed)"
proof -
  define xs where "xs = filtered_rows df M allowed"
  define k where "k = nat s"
  define m where "m = (length xs + k - 1) div k"
  define chunks where "chunks = map (\<lambda>i. take k (drop (i * k) xs)) [0..<m]"
  have k: "0 < k" "s = int k" using assms(2) by (simp_all add: k_def)
  have n: "0 < length xs" using assms(3) by (simp add: xs_def)
  have c: "create_chunks df M allowed s = Inr chunks"
    unfolding chunks_def m_def xs_def k_def filtered_rows_def
    by (rule create_chunks_readable[OF assms(1,2)])
  have len: "length chunks = m" by (simp add: chunks_def)
  have mpos: "0 < m" unfolding m_def by (rule ceil_pos[OF k(1) n])
  have cc: "concat chunks = xs" unfolding chunks_def m_def by (rule chunks_concat[OF k(1)])
  have p1: "int (length chunks) = \<lceil>real (length xs) / real_of_int s\<rceil>"
    unfolding len m_def k(2) using ceil_real[OF k(1), of "length xs"] by simp
  have p2: "int (length (chunks ! i)) = s" if "i + 1 < length chunks" for i
  proof -
    have i: "i < m" "Suc i < m" using that len by simp_all
    have "Suc i * k < length xs"
      using chunk_index_in_range[OF k(1), of "Suc i" "length xs"] i(2) by (simp add: m_def)
    then have "length (take k (drop (i * k) xs)) = k" by simp
    with i(1) show ?thesis by (simp add: chunks_def k(2))
  qed
  have p3: "int (length (last chunks)) =
              (if int (length xs) mod s = 0 then s else int (length xs) mod s)"
  proof -
    have ne: "chunks \<noteq> []" using len mpos by auto
    have "last chunks = chunks ! (m - 1)" using ne len by (simp add: last_conv_nth)
    also have "\<dots> = take k (drop ((m - 1) * k) xs)" using mpos by (simp add: chunks_def)
    finally have "length (last chunks) = min k (length xs - (m - 1) * k)" by simp
    also have "length xs - (m - 1) * k = (if length xs mod k = 0 then k else length xs mod k)"
      unfolding m_def by (rule last_chunk_length[OF k(1) n])
    also have "min k (if length xs mod k = 0 then k else length xs mod k)
                 = (if length xs mod k = 0 then k else length xs mod k)"
    proof -
      have "length xs mod k < k" using k(1) by simp
      then show ?thesis by (simp add: min_def)
    qed
    finally have "int (length (last chunks)) =
                    (if length xs mod k = 0 then int k else int (length xs mod k))" by simp
    moreover have "int (length xs) mod int k = int (length xs mod k)" by (simp only: zmod_int)
    ultimately show ?thesis unfolding k(2) by simp
  qed
  have p4: "sum_list (map length chunks) = length xs"
    using cc by (metis length_concat)
  from c p1 p2 p3 cc p4 show ?thesis unfolding xs_def by blast
qed

theorem create_chunks_partition_witness:
  "str_readable three_rows_table \<and> (0::int) < 2 \<and>
   filtered_rows three_rows_table ''JIDU6601'' ALLOWED_VERSIONS \<noteq> [] \<and>
   create_chunks three_rows_table ''JIDU6601'' ALLOWED_VERSIONS 2 =
     Inr [[\<lparr>Device_Model = Str ''JIDU6601'', Serial_Number = Str ''SN1'',
            Version = Str ''R2.0.19''\<rparr>,
           \<lparr>Device_Model = Str ''JIDU6601 '', Serial_Number = Str ''SN2'',
            Version = Str '' R2.0.16''\<rparr>],
          [\<lparr>Device_Model = Str ''JIDU6601'', Serial_Number = Str ''SN3'',
            Version = Str ''R2.0.18.2''\<rparr>]] \<and>
   (\<exists>chunks. create_chunks three_rows_table ''JIDU6601'' ALLOWED_VERSIONS 2 = Inr chunks \<and>
      int (length chunks) =
        \<lceil>real (length (filtered_rows three_rows_table ''JIDU6601'' ALLOWED_VERSIONS))
           / real_of_int 2\<rceil> \<and>
      (\<forall>i. i + 1 < length chunks \<longrightarrow> int (length (chunks ! i)) = 2) \<and>
      int (length (last chunks)) =
        (if int (length (filtered_rows three_rows_table ''JIDU6601'' ALLOWED_VERSIONS)) mod 2 = 0
         then 2
         else int (length (filtered_rows three_rows_table ''JIDU6601'' ALLOWED_VERSIONS)) mod 2) \<and>
      concat chunks = filtered_rows three_rows_table ''JIDU6601'' ALLOWED_VERSIONS \<and>
      sum_list (map length chunks) =
        length (filtered_rows three_rows_table ''JIDU6601'' ALLOWED_VERSIONS))"
proof -
  have h1: "str_readable three_rows_table"
    by (simp add: str_readable_def three_rows_table_def required_columns_def)
  have h2: "(0::int) < 2" by simp
  have h3: "filtered_rows three_rows_table ''JIDU6601'' ALLOWED_VERSIONS \<noteq> []"
    by code_simp
  have v: "create_chunks three_rows_table ''JIDU6601'' ALLOWED_VERSIONS 2 =
     Inr [[\<lparr>Device_Model = Str ''JIDU6601'', Serial_Number = Str ''SN1'',
            Version = Str ''R2.0.19''\<rparr>,
           \<lparr>Device_Model = Str ''JIDU6601 '', Serial_Number = Str ''SN2'',
            Version = Str '' R2.0.16''\<rparr>],
          [\<lparr>Device_Model = Str ''JIDU6601'', Serial_Number = Str ''SN3'',
            Version = Str ''R2.0.18.2''\<rparr>]]"
    by code_simp
  from create_chunks_partition[OF h1 h2 h3] h1 h2 h3 v
  show ?thesis by blast
qed

subsection \<open>The table is left as it was\<close>

lemma slice_loop_char:
  assumes "slice_loop st f cs n js acc = (chunks, st')" "f < length st"
  shows "\<exists>new refs. st' = st @ new \<and> chunks = acc @ refs \<and>
           (\<forall>a \<in> set refs. length st \<le> a \<and> a < length st') \<and>
           map (\<lambda>a. rows (st' ! a)) refs =
             map (\<lambda>i. py_slice (rows (st ! f)) (int i * cs) (min ((int i + 1) * cs) n)) js"
  using assms
proof (induction js arbitrary: st acc)
  case Nil
  then show ?case by simp
next
  case (Cons i js)
  define t where "t = (st ! f)\<lparr>rows := py_slice (rows (st ! f)) (int i * cs) (min ((int i + 1) * cs) n)\<rparr>"
  define st2 where "st2 = st @ [t, t]"
  have step: "slice_loop st2 f cs n js (acc @ [Suc (length st)]) = (chunks, st')"
    using Cons.prems(1) by (simp add: new_frame_def Let_def t_def st2_def nth_append)
  have f2: "f < length st2" using Cons.prems(2) by (simp add: st2_def)
  from Cons.IH[OF step f2] obtain new refs where
    s: "st' = st2 @ new" and c: "chunks = (acc @ [Suc (length st)]) @ refs"
    and fr: "\<forall>a \<in> set refs. length st2 \<le> a \<and> a < length st'"
    and v: "map (\<lambda>a. rows (st' ! a)) refs =
             map (\<lambda>i. py_slice (rows (st2 ! f)) (int i * cs) (min ((int i + 1) * cs) n)) js"
    by blast
  have sf: "st2 ! f = st ! f" using Cons.prems(2) by (simp add: st2_def nth_append)
  have r1: "rows (st' ! Suc (length st)) = py_slice (rows (st ! f)) (int i * cs) (min ((int i + 1) * cs) n)"
    by (simp add: s st2_def nth_append t_def)
  have "st' = st @ ([t, t] @ new)" by (simp add: s st2_def)
  moreover have "chunks = acc @ (Suc (length st) # refs)" by (simp add: c)
  moreover have "\<forall>a \<in> set (Suc (length st) # refs). length st \<le> a \<and> a < length st'"
    using fr by (auto simp add: s st2_def)
  moreover have "map (\<lambda>a. rows (st' ! a)) (Suc (length st) # refs) =
             map (\<lambda>i. py_slice (rows (st ! f)) (int i * cs) (min ((int i + 1) * cs) n)) (i # js)"
    using v r1 sf by simp
  ultimately show ?case by blast
qed


lemma create_chunks_st_char:
  assumes "df < length st" "create_chunks_st st df M allowed cs = (res, st')"
  shows "(\<exists>new. st' = st @ new) \<and>
         (case res of
            Inl e \<Rightarrow> create_chunks (st ! df) M allowed cs = Inl e
          | Inr refs \<Rightarrow>
              (\<forall>a \<in> set refs. length st \<le> a \<and> a < length st') \<and>
              create_chunks (st ! df) M allowed cs = Inr (map (\<lambda>a. rows (st' ! a)) refs))"
proof (cases "filter_mask (st ! df) M allowed")
  case (Inl e)
  with assms(2) show ?thesis by (auto simp add: create_chunks_st_def create_chunks_def)
next
  case (Inr keep)
  define xs where "xs = select_rows (rows (st ! df)) keep"
  define t where "t = (st ! df)\<lparr>rows := xs\<rparr>"
  define st2 where "st2 = st @ [t, t]"
  define f where "f = Suc (length st)"
  have f: "f < length st2" "st2 ! f = t" "rows (st2 ! f) = xs" "rows t = xs"
    by (simp_all add: f_def st2_def t_def nth_append)
  have unfold: "create_chunks_st st df M allowed cs =
      (if xs = [] then (Inr [], st2)
       else if cs = 0 then (Inl ZeroDivisionError, st2)
       else case slice_loop st2 f cs (int (length xs))
                   [0..<nat ((int (length xs) + cs - 1) div cs)] [] of
              (chunks, st3) \<Rightarrow> (Inr chunks, st3))"
    by (simp add: create_chunks_st_def Inr new_frame_def Let_def nth_append
        xs_def[symmetric] t_def[symmetric] st2_def[symmetric] f_def[symmetric] f)
  have pure: "create_chunks (st ! df) M allowed cs =
      (if xs = [] then Inr []
       else if cs = 0 then Inl ZeroDivisionError
       else Inr (map (\<lambda>i. py_slice xs (int i * cs) (min ((int i + 1) * cs) (int (length xs))))
                     [0..<nat ((int (length xs) + cs - 1) div cs)]))"
    by (simp add: create_chunks_def Inr Let_def xs_def[symmetric])
  show ?thesis
  proof (cases "xs = [] \<or> cs = 0")
    case True
    from assms(2) unfold True
    have r: "st' = st2" "res = (if xs = [] then Inr [] else Inl ZeroDivisionError)"
      by (auto split: if_splits)
    have "st' = st @ [t, t]" using r by (simp add: st2_def)
    then have "\<exists>new. st' = st @ new" by blast
    moreover have "create_chunks (st ! df) M allowed cs =
                     (if xs = [] then Inr [] else Inl ZeroDivisionError)"
      using pure True by (auto split: if_splits)
    ultimately show ?thesis using r by (auto split: if_splits)
  next
    case False
    obtain chunks st3 where
      l: "slice_loop st2 f cs (int (length xs)) [0..<nat ((int (length xs) + cs - 1) div cs)] []
            = (chunks, st3)"
      by (cases "slice_loop st2 f cs (int (length xs)) [0..<nat ((int (length xs) + cs - 1) div cs)] []")
    with False assms(2) unfold have r: "res = Inr chunks" "st' = st3" by simp_all
    from slice_loop_char[OF l f(1)] obtain new refs where
      s: "st3 = st2 @ new" and c: "chunks = refs"
      and fr: "\<forall>a \<in> set refs. length st2 \<le> a \<and> a < length st3"
      and v: "map (\<lambda>a. rows (st3 ! a)) refs =
               map (\<lambda>i. py_slice (rows (st2 ! f)) (int i * cs)
                          (min ((int i + 1) * cs) (int (length xs))))
                   [0..<nat ((int (length xs) + cs - 1) div cs)]"
      by auto
    have "st' = st @ ([t, t] @ new)" using r s by (simp add: st2_def)
    moreover have "\<forall>a \<in> set chunks. length st \<le> a \<and> a < length st'"
      using fr c r by (auto simp add: st2_def)
    moreover have "create_chunks (st ! df) M allowed cs = Inr (map (\<lambda>a. rows (st' ! a)) chunks)"
      using False pure v c r f(3) by simp
    ultimately show ?thesis using r by auto
  qed
qed

text \<open>
  Claim C9. \<open>create_chunks\<close> leaves every frame that existed before the call as it was, the
  table it is given among them: the store after the call is the store before it followed by
  new frames, and the chunks it returns are new frames, none of them the table. What it
  returns is what \<open>create_chunks\<close> computes from the table. When the three columns can be
  read and no row passes the filter, it returns the empty list and raises nothing, whatever
  the chunk size.
\<close>

theorem create_chunks_leaves_table:
  assumes "df < length st"
  shows "(\<exists>new. snd (create_chunks_st st df M allowed cs) = st @ new) \<and>
         snd (create_chunks_st st df M allowed cs) ! df = st ! df \<and>
         (\<forall>refs. fst (create_chunks_st st df M allowed cs) = Inr refs \<longrightarrow>
            df \<notin> set refs \<and>
            create_chunks (st ! df) M allowed cs =
              Inr (map (\<lambda>a. rows (snd (create_chunks_st st df M allowed cs) ! a)) refs)) \<and>
         (\<forall>e. fst (create_chunks_st st df M allowed cs) = Inl e \<longrightarrow>
            create_chunks (st ! df) M allowed cs = Inl e) \<and>
         (str_readable (st ! df) \<and> filtered_rows (st ! df) M allowed = [] \<longrightarrow>
            fst (create_chunks_st st df M allowed cs) = Inr [] \<and>
            create_chunks (st ! df) M allowed cs = Inr [])"
proof -
  obtain res st' where r: "create_chunks_st st df M allowed cs = (res, st')"
    by (cases "create_chunks_st st df M allowed cs")
  note c = create_chunks_st_char[OF assms r]
  from c obtain new where n: "st' = st @ new" by blast
  have same: "st' ! df = st ! df" using n assms by (simp add: nth_append)
  have refs: "df \<notin> set refs \<and> create_chunks (st ! df) M allowed cs = Inr (map (\<lambda>a. rows (st' ! a)) refs)"
    if "res = Inr refs" for refs
    using c that assms by auto
  have errs: "create_chunks (st ! df) M allowed cs = Inl e" if "res = Inl e" for e
    using c that by simp
  have empty: "res = Inr [] \<and> create_chunks (st ! df) M allowed cs = Inr []"
    if h: "str_readable (st ! df)" "filtered_rows (st ! df) M allowed = []"
  proof -
    have p: "create_chunks (st ! df) M allowed cs = Inr []"
      using h by (simp add: create_chunks_def filter_mask_readable select_rows_map filtered_rows_def)
    with c show ?thesis by (cases res) auto
  qed
  from n same refs errs empty show ?thesis unfolding r by simp
qed

theorem create_chunks_leaves_table_witness:
  "(0::nat) < length [scenario_table] \<and>
   str_readable ([scenario_table] ! 0) \<and>
   filtered_rows ([scenario_table] ! 0) ''JIDU6311'' ALLOWED_VERSIONS = [] \<and>
   snd (create_chunks_st [scenario_table] 0 ''JIDU6311'' ALLOWED_VERSIONS 0) ! 0 = scenario_table \<and>
   fst (create_chunks_st [scenario_table] 0 ''JIDU6311'' ALLOWED_VERSIONS 0) = Inr [] \<and>
   create_chunks scenario_table ''JIDU6311'' ALLOWED_VERSIONS 0 = Inr []"
proof -
  have h: "(0::nat) < length [scenario_table]" by simp
  have r: "str_readable ([scenario_table] ! 0)"
    by (simp add: str_readable_def scenario_table_def required_columns_def)
  have f: "filtered_rows ([scenario_table] ! 0) ''JIDU6311'' ALLOWED_VERSIONS = []"
    by code_simp
  from create_chunks_leaves_table[OF h, of "''JIDU6311''" ALLOWED_VERSIONS 0] r f
  have "snd (create_chunks_st [scenario_table] 0 ''JIDU6311'' ALLOWED_VERSIONS 0) ! 0
          = [scenario_table] ! 0"
    and "fst (create_chunks_st [scenario_table] 0 ''JIDU6311'' ALLOWED_VERSIONS 0) = Inr []"
    and "create_chunks ([scenario_table] ! 0) ''JIDU6311'' ALLOWED_VERSIONS 0 = Inr []"
    by blast+
  with h r f show ?thesis by simp
qed

section \<open>Properties of the validator\<close>

lemma filter_required:
  "filter (\<lambda>col. col \<notin> set (columns df)) required_columns =
     missing_of (''Device Model'' \<in> set (columns df)) (''Serial Number'' \<in> set (columns df))
                (''Version'' \<in> set (columns df))"
  by (simp add: required_columns_def missing_of_def)

lemma names_exactly:
  "\<forall>d s v. let msg = ''Missing required columns: '' @ join '', '' (missing_of d s v) in
      (d \<and> s \<and> v) \<or>
      ((sublist ''Device Model'' msg \<longleftrightarrow> \<not> d) \<and> (sublist ''Serial Number'' msg \<longleftrightarrow> \<not> s) \<and>
      (sublist ''Version'' msg \<longleftrightarrow> \<not> v))"
  by code_simp

text \<open>
  Claim C6. \<open>validate_data\<close> answers false exactly when one of the three required labels
  is not a column of the table; then its message is the fixed prefix followed by the absent
  labels, and a required label occurs in the message exactly when it is absent. Otherwise
  the answer is true.
\<close>

theorem validate_data_missing_columns:
  "(fst (validate_data df) \<longleftrightarrow> (\<forall>c \<in> set required_columns. c \<in> set (columns df))) \<and>
   (fst (validate_data df) \<longrightarrow> snd (validate_data df) = ''Data validated successfully'') \<and>
   (\<not> fst (validate_data df) \<longrightarrow>
      snd (validate_data df) =
        ''Missing required columns: '' @
        join '', '' (filter (\<lambda>c. c \<notin> set (columns df)) required_columns) \<and>
      (\<forall>c \<in> set required_columns. sublist c (snd (validate_data df)) \<longleftrightarrow> c \<notin> set (columns df)))"
proof -
  define d s v where "d \<longleftrightarrow> ''Device Model'' \<in> set (columns df)"
    and "s \<longleftrightarrow> ''Serial Number'' \<in> set (columns df)"
    and "v \<longleftrightarrow> ''Version'' \<in> set (columns df)"
  have f: "filter (\<lambda>col. col \<notin> set (columns df)) required_columns = missing_of d s v"
    unfolding d_def s_def v_def by (rule filter_required)
  have ok: "fst (validate_data df) \<longleftrightarrow> d \<and> s \<and> v"
    unfolding validate_data_def f Let_def by (simp add: missing_of_def)
  have all: "(\<forall>c \<in> set required_columns. c \<in> set (columns df)) \<longleftrightarrow> d \<and> s \<and> v"
    by (simp add: required_columns_def d_def s_def v_def)
  have good: "snd (validate_data df) = ''Data validated successfully''" if "d \<and> s \<and> v"
    using that unfolding validate_data_def f Let_def by (simp add: missing_of_def)
  have bad: "snd (validate_data df) = ''Missing required columns: '' @ join '', '' (missing_of d s v)"
    if "\<not> (d \<and> s \<and> v)"
    using that unfolding validate_data_def f Let_def by (auto simp add: missing_of_def)
  have names: "(\<forall>c \<in> set required_columns. sublist c (snd (validate_data df)) \<longleftrightarrow> c \<notin> set (columns df))"
    if "\<not> (d \<and> s \<and> v)"
  proof -
    define msg where "msg = ''Missing required columns: '' @ join '', '' (missing_of d s v)"
    from names_exactly[rule_format, of d s v] that
    have "(sublist ''Device Model'' msg \<longleftrightarrow> \<not> d) \<and> (sublist ''Serial Number'' msg \<longleftrightarrow> \<not> s) \<and>
          (sublist ''Version'' msg \<longleftrightarrow> \<not> v)"
      unfolding Let_def msg_def by blast
    moreover have "snd (validate_data df) = msg" unfolding msg_def by (rule bad[OF that])
    ultimately show ?thesis
      by (simp only: required_columns_def d_def s_def v_def list.set ball_simps bex_simps
            insert_iff empty_iff simp_thms)
  qed
  from ok all good bad names show ?thesis unfolding f by blast
qed

theorem validate_data_missing_columns_witness:
  "\<not> fst (validate_data incomplete_table) \<and>
   snd (validate_data incomplete_table) = ''Missing required columns: Serial Number, Version'' \<and>
   \<not> sublist ''Device Model'' (snd (validate_data incomplete_table)) \<and>
   sublist ''Serial Number'' (snd (validate_data incomplete_table)) \<and>
   sublist ''Version'' (snd (validate_data incomplete_table))"
proof -
  have a: "\<not> fst (validate_data incomplete_table)" by code_simp
  have c: "''Device Model'' \<in> set (columns incomplete_table)"
          "''Serial Number'' \<notin> set (columns incomplete_table)"
          "''Version'' \<notin> set (columns incomplete_table)"
    by (simp_all add: incomplete_table_def)
  from validate_data_missing_columns[of incomplete_table] a
  have m: "snd (validate_data incomplete_table) =
             ''Missing required columns: '' @
             join '', '' (filter (\<lambda>c. c \<notin> set (columns incomplete_table)) required_columns)"
    and n: "\<forall>c \<in> set required_columns.
              sublist c (snd (validate_data incomplete_table)) \<longleftrightarrow>
              c \<notin> set (columns incomplete_table)"
    by blast+
  have "snd (validate_data incomplete_table) = ''Missing required columns: Serial Number, Version''"
    unfolding m by (simp add: required_columns_def incomplete_table_def)
  moreover from n c have "\<not> sublist ''Device Model'' (snd (validate_data incomplete_table))"
    "sublist ''Serial Number'' (snd (validate_data incomplete_table))"
    "sublist ''Version'' (snd (validate_data incomplete_table))"
    by (simp_all add: required_columns_def)
  ultimately show ?thesis using a by blast
qed

section \<open>Properties of the renderer\<close>

subsection \<open>Lines\<close>

lemma split_nl_nonempty: "split_nl s \<noteq> []"
  by (induction s) (simp_all add: Let_def)

lemma split_nl_no_lf: "l \<in> set (split_nl s) \<Longrightarrow> LF \<notin> set l"
proof (induction s arbitrary: l)
  case Nil
  then show ?case by simp
next
  case (Cons c s)
  obtain h t where ht: "split_nl s = h # t" using split_nl_nonempty[of s] by (cases "split_nl s") auto
  have h: "LF \<notin> set h" and t: "\<And>x. x \<in> set t \<Longrightarrow> LF \<notin> set x"
    using Cons.IH ht by auto
  show ?case
  proof (cases "c = LF")
    case True
    with Cons.prems ht have "l = [] \<or> l \<in> set (split_nl s)" by (auto simp add: Let_def)
    with Cons.IH show ?thesis by auto
  next
    case False
    with Cons.prems ht have "l = c # h \<or> l \<in> set t" by (auto simp add: Let_def)
    with False h t show ?thesis by auto
  qed
qed

lemma split_nl_line: "LF \<notin> set a \<Longrightarrow> split_nl (a @ LF # b) = a # split_nl b"
  by (induction a) (auto simp add: Let_def)

lemma split_nl_last: "LF \<notin> set a \<Longrightarrow> split_nl a = [a]"
  by (induction a) (auto simp add: Let_def)

lemma split_nl_append: "split_nl (a @ LF # b) = split_nl a @ split_nl b"
proof (induction a)
  case Nil
  show ?case by (simp add: Let_def)
next
  case (Cons c a)
  obtain h t where ht: "split_nl a = h # t" using split_nl_nonempty[of a] by (cases "split_nl a") auto
  show ?case using Cons ht by (simp add: Let_def)
qed

lemma split_nl_snoc: "split_nl (a @ [LF]) = split_nl a @ [[]]"
  using split_nl_append[of a "[]"] by simp

lemma split_nl_prefix:
  "LF \<notin> set p \<Longrightarrow> split_nl (p @ z) = (p @ hd (split_nl z)) # tl (split_nl z)"
proof (induction p)
  case Nil
  show ?case using split_nl_nonempty[of z] by simp
next
  case (Cons c p)
  then show ?case by (auto simp add: Let_def)
qed

lemma split_nl_suffix:
  assumes "LF \<notin> set s"
  shows "split_nl (z @ s) = butlast (split_nl z) @ [last (split_nl z) @ s]"
proof (induction z)
  case Nil
  show ?case using split_nl_last[OF assms] by simp
next
  case (Cons c z)
  obtain h t where ht: "split_nl z = h # t" using split_nl_nonempty[of z] by (cases "split_nl z") auto
  show ?case
  proof (cases "c = LF")
    case True
    then show ?thesis using Cons ht by (simp add: Let_def)
  next
    case False
    show ?thesis
    proof (cases t)
      case Nil
      with False Cons ht show ?thesis by (simp add: Let_def)
    next
      case (Cons y ys)
      with False Cons.IH ht show ?thesis by (simp add: Let_def)
    qed
  qed
qed

lemma join_Cons: "ys \<noteq> [] \<Longrightarrow> join sep (x # ys) = x @ sep @ join sep ys"
  by (cases ys) simp_all

lemma join_split_nl: "join [LF] (split_nl s) = s"
proof (induction s)
  case Nil
  show ?case by simp
next
  case (Cons c s)
  obtain h t where ht: "split_nl s = h # t" using split_nl_nonempty[of s] by (cases "split_nl s") auto
  show ?case
  proof (cases "c = LF")
    case True
    then show ?thesis using Cons ht by (simp add: Let_def)
  next
    case False
    have "join [LF] ((c # h) # t) = c # join [LF] (h # t)" by (cases t) simp_all
    with False Cons ht show ?thesis by (simp add: Let_def)
  qed
qed

lemma split_nl_join:
  assumes "ls \<noteq> []" "\<forall>l \<in> set ls. LF \<notin> set l"
  shows "split_nl (join [LF] ls) = ls"
  using assms
proof (induction ls)
  case Nil
  then show ?case by simp
next
  case (Cons x ls)
  show ?case
  proof (cases ls)
    case Nil
    with Cons.prems show ?thesis by (simp add: split_nl_last)
  next
    case (Cons y ys)
    with Cons.IH Cons.prems have ih: "split_nl (join [LF] (y # ys)) = y # ys" by simp
    have j: "join [LF] (x # y # ys) = x @ LF # join [LF] (y # ys)" by simp
    have "LF \<notin> set x" using Cons.prems by simp
    from split_nl_line[OF this, of "join [LF] (y # ys)"] ih j Cons show ?thesis by simp
  qed
qed

lemma shift_lf:
  "LF # concat (map (\<lambda>e. f e @ [LF]) es) @ z = concat (map (\<lambda>e. LF # f e) es) @ LF # z"
  by (induction es) simp_all

lemma split_nl_blocks:
  "split_nl (a @ concat (map (\<lambda>e. LF # g e) es) @ LF # z) =
     split_nl a @ concat (map (\<lambda>e. split_nl (g e)) es) @ split_nl z"
proof (induction es arbitrary: a)
  case Nil
  show ?case by (simp add: split_nl_append)
next
  case (Cons e es)
  have "a @ concat (map (\<lambda>e. LF # g e) (e # es)) @ LF # z =
          a @ LF # (g e @ concat (map (\<lambda>e. LF # g e) es) @ LF # z)" by simp
  then show ?case by (simp only: split_nl_append Cons.IH) simp
qed

subsection \<open>Stripping and the line filter\<close>

lemma rstrip_Cons:
  "rev (dropWhile P (rev (c # r))) =
     (if (\<forall>x \<in> set r. P x) \<and> P c then [] else c # rev (dropWhile P (rev r)))"
  by (simp add: dropWhile_append)

lemma rstrip_prefix:
  assumes "\<forall>a \<in> set p. \<not> P a"
  shows "prefix p (rev (dropWhile P (rev d))) \<longleftrightarrow> prefix p d"
  using assms
proof (induction p arbitrary: d)
  case Nil
  show ?case by simp
next
  case (Cons a p)
  show ?case
  proof (cases d)
    case Nil
    then show ?thesis by simp
  next
    case (Cons c r)
    have ih: "prefix p (rev (dropWhile P (rev r))) \<longleftrightarrow> prefix p r"
      using Cons.IH Cons.prems by simp
    have na: "\<not> P a" using Cons.prems by simp
    show ?thesis
    proof (cases "(\<forall>x \<in> set r. P x) \<and> P c")
      case True
      have e: "rev (dropWhile P (rev (c # r))) = []" unfolding rstrip_Cons using True by simp
      have "a \<noteq> c" using True na by auto
      then show ?thesis unfolding Cons e by simp
    next
      case False
      have e: "rev (dropWhile P (rev (c # r))) = c # rev (dropWhile P (rev r))"
        unfolding rstrip_Cons using False by simp
      show ?thesis unfolding Cons e using ih by simp
    qed
  qed
qed

lemma strip_empty_iff: "strip s = [] \<longleftrightarrow> dropWhile py_isspace s = []"
proof
  assume "strip s = []"
  then have a: "\<forall>x \<in> set (dropWhile py_isspace s). py_isspace x"
    unfolding strip_def by (simp only: rev_is_Nil_conv dropWhile_eq_Nil_conv set_rev)
  show "dropWhile py_isspace s = []"
  proof (rule ccontr)
    assume n: "dropWhile py_isspace s \<noteq> []"
    then have "\<not> py_isspace (hd (dropWhile py_isspace s))" by (rule hd_dropWhile)
    moreover have "hd (dropWhile py_isspace s) \<in> set (dropWhile py_isspace s)"
      using n by (rule hd_in_set)
    ultimately show False using a by blast
  qed
next
  assume d: "dropWhile py_isspace s = []"
  show "strip s = []" unfolding strip_def d by simp
qed

lemma strip_nonblank: "strip s \<noteq> [] \<longleftrightarrow> (\<exists>c \<in> set s. \<not> py_isspace c)"
  by (simp add: strip_empty_iff dropWhile_eq_Nil_conv)

lemma keep_line_iff:
  "keep_line l \<longleftrightarrow>
     dropWhile py_isspace l \<noteq> [] \<and> \<not> prefix ''<?xml'' (dropWhile py_isspace l)"
proof -
  have "\<forall>a \<in> set ''<?xml''. \<not> py_isspace a" by (simp add: py_isspace_def)
  from rstrip_prefix[OF this, of "dropWhile py_isspace l"]
  have "prefix ''<?xml'' (strip l) \<longleftrightarrow> prefix ''<?xml'' (dropWhile py_isspace l)"
    by (simp only: strip_def)
  then show ?thesis by (simp only: keep_line_def strip_empty_iff)
qed

lemma keep_line_text:
  assumes "\<exists>c \<in> set l. \<not> py_isspace c" "CHR ''<'' \<notin> set l"
  shows "keep_line (l @ y)"
proof -
  from assms(1) have d: "dropWhile py_isspace (l @ y) = dropWhile py_isspace l @ y"
    by (auto simp add: dropWhile_append1)
  from assms(1) have n: "dropWhile py_isspace l \<noteq> []" by (simp add: dropWhile_eq_Nil_conv)
  then obtain c r where cr: "dropWhile py_isspace l = c # r" by (cases "dropWhile py_isspace l") auto
  have "c \<in> set l" using set_dropWhileD[of c py_isspace l] cr by simp
  with assms(2) have "c \<noteq> CHR ''<''" by auto
  then show ?thesis by (simp add: keep_line_iff d cr)
qed

lemma keep_line_tag: "keep_line (''  <s'' @ x)"
  by (simp add: keep_line_iff py_isspace_def)

lemma fixed_lines:
  "\<not> keep_line minidom_declaration" "keep_line ''<serials>''" "keep_line ''<serials/>''"
  "keep_line ''</serials>''" "\<not> keep_line []"
  by code_simp+

lemma fixed_no_lf:
  "LF \<notin> set minidom_declaration" "LF \<notin> set xml_declaration"
  by (simp_all add: minidom_declaration_def xml_declaration_def)

subsection \<open>What minidom writes\<close>

lemma py_replace_append: "py_replace a b (x @ y) = py_replace a b x @ py_replace a b y"
  by (simp add: py_replace_def)

lemma write_data_append: "write_data (x @ y) = write_data x @ write_data y"
  by (simp add: write_data_def py_replace_append)

lemma write_data_single: "write_data [c] = escape_char c"
  by (simp add: write_data_def py_replace_def escape_char_def)

lemma write_data_Nil: "write_data [] = []"
  by (simp add: write_data_def py_replace_def)

lemma write_data_Cons: "write_data (c # s) = escape_char c @ write_data s"
  using write_data_append[of "[c]" s] by (simp add: write_data_single)

lemma write_data_concat: "write_data s = concat (map escape_char s)"
  by (induction s) (simp_all add: write_data_Nil write_data_Cons)

lemma escape_char_set: "x \<in> set (escape_char c) \<Longrightarrow> x = c \<or> x \<in> set ''&amp;lt;quot;gt;''"
  by (auto simp add: escape_char_def split: if_splits)

lemma escape_char_safe: "DQ \<notin> set (escape_char c)" "CHR ''<'' \<notin> set (escape_char c)"
  by (simp_all add: escape_char_def)

lemma escape_char_nonblank: "\<not> py_isspace c \<Longrightarrow> \<exists>x \<in> set (escape_char c). \<not> py_isspace x"
  by (simp add: escape_char_def py_isspace_def)

lemma write_data_safe: "DQ \<notin> set (write_data s)" "CHR ''<'' \<notin> set (write_data s)"
  using escape_char_safe by (auto simp add: write_data_concat)

lemma write_data_keeps_out:
  assumes "x \<notin> set s" "x \<notin> set ''&amp;lt;quot;gt;''"
  shows "x \<notin> set (write_data s)"
  using assms by (auto simp add: write_data_concat dest!: escape_char_set)

lemma write_data_no_lf: "LF \<notin> set s \<Longrightarrow> LF \<notin> set (write_data s)"
  by (simp add: write_data_keeps_out)

lemma write_data_nonblank:
  assumes "\<exists>c \<in> set s. \<not> py_isspace c"
  shows "\<exists>x \<in> set (write_data s). \<not> py_isspace x"
proof -
  from assms obtain c where c: "c \<in> set s" "\<not> py_isspace c" by blast
  from escape_char_nonblank[OF c(2)] obtain x where x: "x \<in> set (escape_char c)" "\<not> py_isspace x"
    by blast
  from c(1) x(1) have "x \<in> set (write_data s)" by (auto simp add: write_data_concat)
  with x(2) show ?thesis by blast
qed

lemma write_data_lines: "split_nl (write_data t) = map write_data (split_nl t)"
proof (induction t)
  case Nil
  show ?case by (simp add: write_data_Nil)
next
  case (Cons c t)
  obtain h r where hr: "split_nl t = h # r" using split_nl_nonempty[of t] by (cases "split_nl t") auto
  show ?case
  proof (cases "c = LF")
    case True
    then have "write_data (c # t) = LF # write_data t"
      by (simp add: write_data_Cons escape_char_def)
    with True Cons show ?thesis by (simp add: Let_def write_data_Nil)
  next
    case False
    then have "LF \<notin> set (escape_char c)" by (auto dest!: escape_char_set)
    from split_nl_prefix[OF this, of "write_data t"]
    have "split_nl (write_data (c # t)) = (escape_char c @ write_data h) # map write_data r"
      by (simp add: write_data_Cons Cons hr)
    with False hr show ?thesis by (simp add: Let_def write_data_Cons)
  qed
qed


lemma serial_line_no_lf:
  assumes "LF \<notin> set m" "LF \<notin> set f" "LF \<notin> set t"
  shows "LF \<notin> set (serial_line (m, f, t))"
  using write_data_no_lf[OF assms(1)] write_data_no_lf[OF assms(2)] write_data_no_lf[OF assms(3)]
  by (simp add: serial_line_def)

text \<open>
  The lines of an element are all kept when the attribute values have no line feed and no
  line of the text is blank.
\<close>

lemma serial_line_kept:
  assumes "LF \<notin> set m" "LF \<notin> set f" "\<forall>l \<in> set (split_nl t). strip l \<noteq> []"
    "l \<in> set (split_nl (serial_line (m, f, t)))"
  shows "keep_line l"
proof -
  define p where "p = ''  <serial Model='' @ [DQ] @ write_data m @ [DQ] @
        '' Manufacturer='' @ [DQ] @ write_data f @ [DQ] @ ''>''"
  define z where "z = write_data t @ ''</serial>''"
  have sl: "serial_line (m, f, t) = p @ z" by (simp add: serial_line_def p_def z_def)
  have lp: "LF \<notin> set p"
    using write_data_no_lf[OF assms(1)] write_data_no_lf[OF assms(2)] by (simp add: p_def)
  have kp: "keep_line (p @ x)" for x
    using keep_line_tag[of "''erial Model='' @ [DQ] @ write_data m @ [DQ] @
        '' Manufacturer='' @ [DQ] @ write_data f @ [DQ] @ ''>'' @ x"]
    by (simp add: p_def)
  have kt: "keep_line (w @ y)" if "w \<in> set (split_nl (write_data t))" for w y
  proof -
    from that obtain u where u: "u \<in> set (split_nl t)" "w = write_data u"
      by (auto simp add: write_data_lines)
    from assms(3) u(1) have "\<exists>c \<in> set u. \<not> py_isspace c" by (simp add: strip_nonblank)
    from write_data_nonblank[OF this] have "\<exists>x \<in> set w. \<not> py_isspace x" by (simp add: u(2))
    moreover have "CHR ''<'' \<notin> set w" by (simp add: u(2) write_data_safe)
    ultimately show ?thesis by (rule keep_line_text)
  qed
  have zs: "split_nl z = butlast (split_nl (write_data t)) @ [last (split_nl (write_data t)) @ ''</serial>'']"
    unfolding z_def by (rule split_nl_suffix) simp
  have kz: "keep_line v" if "v \<in> set (split_nl z)" for v
  proof -
    from that zs have "v \<in> set (butlast (split_nl (write_data t))) \<or>
                      v = last (split_nl (write_data t)) @ ''</serial>''" by auto
    then show ?thesis
    proof
      assume "v \<in> set (butlast (split_nl (write_data t)))"
      then have "v \<in> set (split_nl (write_data t))" by (rule in_set_butlastD)
      from kt[OF this, of "[]"] show ?thesis by simp
    next
      assume v: "v = last (split_nl (write_data t)) @ ''</serial>''"
      have "last (split_nl (write_data t)) \<in> set (split_nl (write_data t))"
        using split_nl_nonempty by (rule last_in_set)
      from kt[OF this] show ?thesis unfolding v .
    qed
  qed
  from assms(4) have "l = p @ hd (split_nl z) \<or> l \<in> set (tl (split_nl z))"
    unfolding sl split_nl_prefix[OF lp] by simp
  then show ?thesis
  proof
    assume "l = p @ hd (split_nl z)"
    then show ?thesis using kp by simp
  next
    assume "l \<in> set (tl (split_nl z))"
    then have "l \<in> set (split_nl z)" by (rule list.set_sel(2)[rotated]) (rule split_nl_nonempty)
    then show ?thesis by (rule kz)
  qed
qed

subsection \<open>The document\<close>

lemma serial_elems_eq:
  "serial_elems chunk m =
     map (\<lambda>t. (m, manufacturer_of m, t)) (filter (\<lambda>t. t \<noteq> []) (trimmed_serials chunk))"
  unfolding serial_elems_def trimmed_serials_def Let_def
  by (induction chunk) simp_all

lemma manufacturer_known: "manufacturer_of m \<in> set (''Unknown'' # map snd MANUFACTURER_MAP)"
proof (cases "map_of MANUFACTURER_MAP m")
  case None
  then show ?thesis by (simp add: manufacturer_of_def)
next
  case (Some f)
  then have "(m, f) \<in> set MANUFACTURER_MAP" by (rule map_of_SomeD)
  then have "f \<in> set (map snd MANUFACTURER_MAP)" by force
  with Some show ?thesis by (simp add: manufacturer_of_def)
qed

lemma manufacturers_plain:
  "list_all (\<lambda>f. list_all xml_char f \<and> TAB \<notin> set f \<and> LF \<notin> set f \<and> CR \<notin> set f)
     (''Unknown'' # map snd MANUFACTURER_MAP)"
  by code_simp

lemma manufacturer_plain:
  "list_all xml_char (manufacturer_of m)" "TAB \<notin> set (manufacturer_of m)"
  "LF \<notin> set (manufacturer_of m)" "CR \<notin> set (manufacturer_of m)"
  using manufacturer_known[of m] manufacturers_plain unfolding list_all_iff by blast+

lemma normalize_eol_id: "CR \<notin> set t \<Longrightarrow> normalize_eol t = t"
  by (induction t rule: normalize_eol.induct) auto

lemma serial_elems_form:
  assumes "e \<in> set (serial_elems chunk m)"
  shows "\<exists>t. e = (m, manufacturer_of m, t) \<and> strip t \<noteq> []"
proof -
  from assms obtain t where t: "e = (m, manufacturer_of m, t)" "t \<in> set (trimmed_serials chunk)"
    "t \<noteq> []"
    by (auto simp add: serial_elems_eq)
  from t(2) have "t \<in> (\<lambda>r. strip (py_str (Serial_Number r))) ` set chunk"
    by (simp add: trimmed_serials_def)
  then obtain r :: row where r: "t = strip (py_str (Serial_Number r))" by blast
  define s where "s = py_str (Serial_Number r)"
  have e: "e = (m, manufacturer_of m, strip s)" and n: "strip s \<noteq> []"
    using t r by (simp_all add: s_def)
  from n have "dropWhile py_isspace s \<noteq> []" by (simp add: strip_empty_iff)
  then obtain c d where cd: "dropWhile py_isspace s = c # d" by (cases "dropWhile py_isspace s") auto
  have c: "\<not> py_isspace c" using hd_dropWhile[of py_isspace s] cd by simp
  then have "strip s = c # rev (dropWhile py_isspace (rev d))"
    unfolding strip_def cd by (simp only: rstrip_Cons) simp
  then have "c \<in> set (strip s)" by simp
  with c have "strip (strip s) \<noteq> []" by (auto simp add: strip_nonblank)
  with e show ?thesis by simp
qed

text \<open>
  The text of the document, when the parser accepts the elements as they are and the
  filter removes no line of an element.
\<close>

lemma toprettyxml_text:
  "toprettyxml tree = minidom_declaration @ LF #
     (if tree = [] then ''<serials/>''
      else ''<serials>'' @ concat (map (\<lambda>e. LF # serial_line e) tree) @ LF # ''</serials>'') @ [LF]"
proof (cases "tree = []")
  case True
  then show ?thesis by (simp add: toprettyxml_def)
next
  case False
  have "toprettyxml tree = minidom_declaration @ LF # ''<serials>'' @
          (LF # concat (map (\<lambda>e. serial_line e @ [LF]) tree) @ ''</serials>'') @ [LF]"
    using False by (simp add: toprettyxml_def)
  also have "\<dots> = minidom_declaration @ LF # ''<serials>'' @
          (concat (map (\<lambda>e. LF # serial_line e) tree) @ LF # ''</serials>'') @ [LF]"
    by (simp only: shift_lf)
  finally show ?thesis using False by simp
qed

lemma generate_text:
  assumes p: "parse_tostring (serial_elems chunk m) = Inr tree"
    and k: "\<forall>e \<in> set tree. \<forall>l \<in> set (split_nl (serial_line e)). keep_line l"
  shows "generate_xml_from_chunk chunk m n =
           Inr (xml_declaration @ LF #
             (if tree = [] then ''<serials/>''
              else ''<serials>'' @ concat (map (\<lambda>e. LF # serial_line e) tree) @ LF # ''</serials>''))"
proof -
  define body where "body = (if tree = [] then ''<serials/>''
      else ''<serials>'' @ concat (map (\<lambda>e. LF # serial_line e) tree) @ LF # ''</serials>'')"
  have t: "toprettyxml tree = minidom_declaration @ LF # (body @ [LF])"
    unfolding body_def by (rule toprettyxml_text)
  have s: "split_nl (toprettyxml tree) = minidom_declaration # (split_nl body @ [[]])"
    unfolding t by (simp only: split_nl_line[OF fixed_no_lf(1)] split_nl_snoc)
  have kb: "keep_line l" if "l \<in> set (split_nl body)" for l
  proof (cases "tree = []")
    case True
    with that have "l = ''<serials/>''" by (simp add: body_def Let_def)
    then show ?thesis by (simp add: fixed_lines)
  next
    case False
    then have "split_nl body = split_nl ''<serials>'' @
                 concat (map (\<lambda>e. split_nl (serial_line e)) tree) @ split_nl ''</serials>''"
      unfolding body_def by (simp only: if_False split_nl_blocks)
    with that have "l = ''<serials>'' \<or> l = ''</serials>'' \<or>
                    (\<exists>e \<in> set tree. l \<in> set (split_nl (serial_line e)))"
      by (auto simp add: Let_def)
    with k show ?thesis using fixed_lines by blast
  qed
  have "filter keep_line (split_nl (toprettyxml tree)) = filter keep_line (split_nl body)"
    unfolding s using fixed_lines by simp
  also have "\<dots> = split_nl body" using kb by (simp add: filter_id_conv)
  finally have f: "filter keep_line (split_nl (toprettyxml tree)) = split_nl body" .
  have "generate_xml_from_chunk chunk m n =
          Inr (xml_declaration @ [LF] @ join [LF] (filter keep_line (split_nl (toprettyxml tree))))"
    by (simp add: generate_xml_from_chunk_def Let_def p)
  then show ?thesis unfolding f join_split_nl body_def by simp
qed

lemma parse_tostring_same:
  assumes "\<forall>e \<in> set es. case e of (m, f, t) \<Rightarrow>
             list_all xml_char m \<and> list_all xml_char f \<and> list_all xml_char t \<and> CR \<notin> set t"
  shows "parse_tostring es = Inr es"
proof -
  have "list_all elem_chars_ok es" using assms by (auto simp add: list_all_iff elem_chars_ok_def)
  moreover have "map (\<lambda>(m, f, t). (m, f, normalize_eol t)) es = es"
    using assms by (intro map_idI) (auto simp add: normalize_eol_id)
  ultimately show ?thesis by (simp add: parse_tostring_def)
qed

lemma generate_text_plain:
  assumes "\<forall>e \<in> set (serial_elems chunk m). case e of (a, f, t) \<Rightarrow>
             list_all xml_char a \<and> LF \<notin> set a \<and> list_all xml_char t \<and> CR \<notin> set t \<and>
             (\<forall>l \<in> set (split_nl t). strip l \<noteq> [])"
  shows "generate_xml_from_chunk chunk m n =
           Inr (xml_declaration @ LF #
             (if serial_elems chunk m = [] then ''<serials/>''
              else ''<serials>'' @ concat (map (\<lambda>e. LF # serial_line e) (serial_elems chunk m)) @
                   LF # ''</serials>''))"
proof (rule generate_text)
  have "\<forall>e \<in> set (serial_elems chunk m). case e of (a, f, t) \<Rightarrow>
             list_all xml_char a \<and> list_all xml_char f \<and> list_all xml_char t \<and> CR \<notin> set t"
  proof
    fix e assume e: "e \<in> set (serial_elems chunk m)"
    from serial_elems_form[OF e] obtain t where t: "e = (m, manufacturer_of m, t)" by blast
    from assms e show "case e of (a, f, t) \<Rightarrow>
             list_all xml_char a \<and> list_all xml_char f \<and> list_all xml_char t \<and> CR \<notin> set t"
      unfolding t by (auto simp add: manufacturer_plain)
  qed
  then show "parse_tostring (serial_elems chunk m) = Inr (serial_elems chunk m)"
    by (rule parse_tostring_same)
  show "\<forall>e \<in> set (serial_elems chunk m). \<forall>l \<in> set (split_nl (serial_line e)). keep_line l"
  proof (intro ballI)
    fix e l assume e: "e \<in> set (serial_elems chunk m)" and l: "l \<in> set (split_nl (serial_line e))"
    from serial_elems_form[OF e] obtain t where t: "e = (m, manufacturer_of m, t)" by blast
    from assms e have "LF \<notin> set m" "\<forall>l \<in> set (split_nl t). strip l \<noteq> []"
      unfolding t by auto
    from serial_line_kept[OF this(1) manufacturer_plain(3) this(2)] l show "keep_line l"
      unfolding t by blast
  qed
qed

lemma toprettyxml_lines:
  "split_nl (toprettyxml tree) =
     minidom_declaration #
     (if tree = [] then [''<serials/>'', []]
      else ''<serials>'' #
           concat (map (\<lambda>e. split_nl (serial_line e)) tree) @ [''</serials>'', []])"
proof (cases "tree = []")
  case True
  have "split_nl (minidom_declaration @ LF # (''<serials/>'' @ [LF])) =
          minidom_declaration # (split_nl ''<serials/>'' @ [[]])"
    by (simp only: split_nl_line[OF fixed_no_lf(1)] split_nl_snoc)
  then show ?thesis using True by (simp add: toprettyxml_text Let_def)
next
  case False
  have "split_nl (minidom_declaration @ LF # ((''<serials>'' @
          concat (map (\<lambda>e. LF # serial_line e) tree) @ LF # ''</serials>'') @ [LF])) =
        minidom_declaration # ((split_nl ''<serials>'' @
          concat (map (\<lambda>e. split_nl (serial_line e)) tree) @ split_nl ''</serials>'') @ [[]])"
    by (simp only: split_nl_line[OF fixed_no_lf(1)] split_nl_snoc split_nl_blocks)
  then show ?thesis using False by (simp add: toprettyxml_text Let_def)
qed

lemma kept_lines_nonempty: "filter keep_line (split_nl (toprettyxml tree)) \<noteq> []"
proof (cases "tree = []")
  case True
  then show ?thesis by (simp add: toprettyxml_lines fixed_lines)
next
  case False
  then show ?thesis by (simp add: toprettyxml_lines fixed_lines)
qed

lemma generate_lines:
  assumes "generate_xml_from_chunk chunk m k = Inr doc"
  shows "\<exists>tree. parse_tostring (serial_elems chunk m) = Inr tree \<and>
           split_nl doc = xml_declaration # filter keep_line (split_nl (toprettyxml tree))"
proof -
  from assms obtain tree where t: "parse_tostring (serial_elems chunk m) = Inr tree"
    and d: "doc = xml_declaration @ LF # join [LF] (filter keep_line (split_nl (toprettyxml tree)))"
    by (auto simp add: generate_xml_from_chunk_def Let_def split: sum.splits)
  have "\<forall>l \<in> set (filter keep_line (split_nl (toprettyxml tree))). LF \<notin> set l"
    using split_nl_no_lf by auto
  from split_nl_join[OF kept_lines_nonempty this]
  have "split_nl doc = xml_declaration # filter keep_line (split_nl (toprettyxml tree))"
    unfolding d by (simp only: split_nl_line[OF fixed_no_lf(2)])
  with t show ?thesis by blast
qed

lemma generate_one_line:
  assumes "list_all one_line_elem (serial_elems chunk m)"
  shows "\<exists>doc. generate_xml_from_chunk chunk m k = Inr doc \<and>
           split_nl doc = xml_declaration #
             (if serial_elems chunk m = [] then [''<serials/>'']
              else ''<serials>'' # map serial_line (serial_elems chunk m) @ [''</serials>''])"
proof -
  define es where "es = serial_elems chunk m"
  have form: "\<exists>t. e = (m, manufacturer_of m, t) \<and> strip t \<noteq> [] \<and> one_line_elem e"
    if "e \<in> set es" for e
    using serial_elems_form[of e chunk m] that assms unfolding es_def list_all_iff by blast
  have "\<forall>e \<in> set es. case e of (a, f, t) \<Rightarrow>
             list_all xml_char a \<and> LF \<notin> set a \<and> list_all xml_char t \<and> CR \<notin> set t \<and>
             (\<forall>l \<in> set (split_nl t). strip l \<noteq> [])"
  proof
    fix e assume "e \<in> set es"
    from form[OF this] obtain t where t: "e = (m, manufacturer_of m, t)" "strip t \<noteq> []"
      "one_line_elem e" by blast
    from t(3) have o: "list_all xml_char m" "LF \<notin> set m" "list_all xml_char t" "LF \<notin> set t"
      "CR \<notin> set t" unfolding t(1) one_line_elem_def by simp_all
    from split_nl_last[OF o(4)] t(2) have "\<forall>l \<in> set (split_nl t). strip l \<noteq> []" by simp
    with o show "case e of (a, f, t) \<Rightarrow>
             list_all xml_char a \<and> LF \<notin> set a \<and> list_all xml_char t \<and> CR \<notin> set t \<and>
             (\<forall>l \<in> set (split_nl t). strip l \<noteq> [])"
      unfolding t(1) by simp
  qed
  from generate_text_plain[OF this[unfolded es_def], of k]
  have d: "generate_xml_from_chunk chunk m k =
           Inr (xml_declaration @ LF #
             (if es = [] then ''<serials/>''
              else ''<serials>'' @ concat (map (\<lambda>e. LF # serial_line e) es) @ LF # ''</serials>''))"
    unfolding es_def .
  have one: "split_nl (serial_line e) = [serial_line e]" if "e \<in> set es" for e
  proof -
    from form[OF that] obtain t where t: "e = (m, manufacturer_of m, t)" "one_line_elem e" by blast
    from t(2) have "LF \<notin> set m" "LF \<notin> set t" unfolding t(1) one_line_elem_def by simp_all
    from serial_line_no_lf[OF this(1) manufacturer_plain(3) this(2)]
    show ?thesis unfolding t(1) by (rule split_nl_last)
  qed
  then have c: "concat (map (\<lambda>e. split_nl (serial_line e)) es) = map serial_line es"
    by (induction es) simp_all
  have "split_nl (xml_declaration @ LF #
             (if es = [] then ''<serials/>''
              else ''<serials>'' @ concat (map (\<lambda>e. LF # serial_line e) es) @ LF # ''</serials>'')) =
        xml_declaration #
             (if es = [] then [''<serials/>'']
              else ''<serials>'' # map serial_line es @ [''</serials>''])"
  proof (cases "es = []")
    case True
    then show ?thesis by (simp add: split_nl_line[OF fixed_no_lf(2)] Let_def)
  next
    case False
    have "split_nl (''<serials>'' @ concat (map (\<lambda>e. LF # serial_line e) es) @ LF # ''</serials>'') =
            split_nl ''<serials>'' @ map serial_line es @ split_nl ''</serials>''"
      by (simp only: split_nl_blocks c)
    then show ?thesis using False by (simp add: split_nl_line[OF fixed_no_lf(2)] Let_def)
  qed
  with d show ?thesis unfolding es_def by simp
qed

subsection \<open>The layout of the document\<close>

text \<open>
  Claim C5, as amended. Whenever \<open>generate_xml_from_chunk\<close> returns a document, its first
  line is the declaration \<open><?xml version="1.0" encoding="UTF-8"?>\<close>, at least one line
  follows, and none of the following lines is blank or begins, once stripped, with
  \<open><?xml\<close>. When every element has only characters that XML allows, no line feed in the
  model and neither a line feed nor a carriage return in the stripped serial number, the
  function does return a document, and the lines after the declaration are exactly
  \<open><serials>\<close>, the elements one per line, each indented by two blanks, and
  \<open></serials>\<close>; or the single line \<open><serials/>\<close> when there is no element.
\<close>

theorem generate_xml_layout:
  "(\<forall>doc. generate_xml_from_chunk chunk_df device_model k = Inr doc \<longrightarrow>
      (\<exists>body. split_nl doc = xml_declaration # body \<and> body \<noteq> [] \<and>
         (\<forall>l \<in> set body. strip l \<noteq> [] \<and> \<not> prefix ''<?xml'' (strip l)))) \<and>
   (list_all one_line_elem (serial_elems chunk_df device_model) \<longrightarrow>
      (\<exists>doc. generate_xml_from_chunk chunk_df device_model k = Inr doc \<and>
         split_nl doc = xml_declaration #
           (if serial_elems chunk_df device_model = [] then [''<serials/>'']
            else ''<serials>'' # map serial_line (serial_elems chunk_df device_model) @
                 [''</serials>''])))"
proof (intro conjI allI impI)
  fix doc
  assume "generate_xml_from_chunk chunk_df device_model k = Inr doc"
  from generate_lines[OF this] obtain tree where
    l: "split_nl doc = xml_declaration # filter keep_line (split_nl (toprettyxml tree))" by blast
  have "\<forall>l \<in> set (filter keep_line (split_nl (toprettyxml tree))).
          strip l \<noteq> [] \<and> \<not> prefix ''<?xml'' (strip l)"
    by (simp add: keep_line_def)
  with l kept_lines_nonempty[of tree]
  show "\<exists>body. split_nl doc = xml_declaration # body \<and> body \<noteq> [] \<and>
         (\<forall>l \<in> set body. strip l \<noteq> [] \<and> \<not> prefix ''<?xml'' (strip l))"
    by blast
next
  assume "list_all one_line_elem (serial_elems chunk_df device_model)"
  then show "\<exists>doc. generate_xml_from_chunk chunk_df device_model k = Inr doc \<and>
         split_nl doc = xml_declaration #
           (if serial_elems chunk_df device_model = [] then [''<serials/>'']
            else ''<serials>'' # map serial_line (serial_elems chunk_df device_model) @
                 [''</serials>''])"
    by (rule generate_one_line)
qed

theorem generate_xml_layout_witness:
  "list_all one_line_elem (serial_elems padded_chunk ''JIDU6601'') \<and>
   (\<exists>doc. generate_xml_from_chunk padded_chunk ''JIDU6601'' 1 = Inr doc \<and>
      split_nl doc =
        [''<?xml version='' @ [DQ] @ ''1.0'' @ [DQ] @ '' encoding='' @ [DQ] @ ''UTF-8'' @ [DQ] @ ''?>'',
         ''<serials>'',
         ''  <serial Model='' @ [DQ] @ ''JIDU6601'' @ [DQ] @ '' Manufacturer='' @ [DQ] @
           ''Speedtech'' @ [DQ] @ ''>SN1</serial>'',
         ''  <serial Model='' @ [DQ] @ ''JIDU6601'' @ [DQ] @ '' Manufacturer='' @ [DQ] @
           ''Speedtech'' @ [DQ] @ ''>A'' @ [TAB] @ ''B</serial>'',
         ''  <serial Model='' @ [DQ] @ ''JIDU6601'' @ [DQ] @ '' Manufacturer='' @ [DQ] @
           ''Speedtech'' @ [DQ] @ ''>a&lt;b&amp;c</serial>'',
         ''</serials>''] \<and>
      (\<exists>body. split_nl doc = xml_declaration # body \<and> body \<noteq> []))"
proof -
  have p: "list_all one_line_elem (serial_elems padded_chunk ''JIDU6601'')" by code_simp
  note t = generate_xml_layout[of padded_chunk "''JIDU6601''" 1]
  from t p obtain doc where
    d: "generate_xml_from_chunk padded_chunk ''JIDU6601'' 1 = Inr doc"
    and l: "split_nl doc = xml_declaration #
           (if serial_elems padded_chunk ''JIDU6601'' = [] then [''<serials/>'']
            else ''<serials>'' # map serial_line (serial_elems padded_chunk ''JIDU6601'') @
                 [''</serials>''])"
    by blast
  from t d obtain body where b: "split_nl doc = xml_declaration # body" "body \<noteq> []" by blast
  have e: "xml_declaration #
           (if serial_elems padded_chunk ''JIDU6601'' = [] then [''<serials/>'']
            else ''<serials>'' # map serial_line (serial_elems padded_chunk ''JIDU6601'') @
                 [''</serials>'']) =
        [''<?xml version='' @ [DQ] @ ''1.0'' @ [DQ] @ '' encoding='' @ [DQ] @ ''UTF-8'' @ [DQ] @ ''?>'',
         ''<serials>'',
         ''  <serial Model='' @ [DQ] @ ''JIDU6601'' @ [DQ] @ '' Manufacturer='' @ [DQ] @
           ''Speedtech'' @ [DQ] @ ''>SN1</serial>'',
         ''  <serial Model='' @ [DQ] @ ''JIDU6601'' @ [DQ] @ '' Manufacturer='' @ [DQ] @
           ''Speedtech'' @ [DQ] @ ''>A'' @ [TAB] @ ''B</serial>'',
         ''  <serial Model='' @ [DQ] @ ''JIDU6601'' @ [DQ] @ '' Manufacturer='' @ [DQ] @
           ''Speedtech'' @ [DQ] @ ''>a&lt;b&amp;c</serial>'',
         ''</serials>'']"
    by code_simp
  from l e have "split_nl doc =
        [''<?xml version='' @ [DQ] @ ''1.0'' @ [DQ] @ '' encoding='' @ [DQ] @ ''UTF-8'' @ [DQ] @ ''?>'',
         ''<serials>'',
         ''  <serial Model='' @ [DQ] @ ''JIDU6601'' @ [DQ] @ '' Manufacturer='' @ [DQ] @
           ''Speedtech'' @ [DQ] @ ''>SN1</serial>'',
         ''  <serial Model='' @ [DQ] @ ''JIDU6601'' @ [DQ] @ '' Manufacturer='' @ [DQ] @
           ''Speedtech'' @ [DQ] @ ''>A'' @ [TAB] @ ''B</serial>'',
         ''  <serial Model='' @ [DQ] @ ''JIDU6601'' @ [DQ] @ '' Manufacturer='' @ [DQ] @
           ''Speedtech'' @ [DQ] @ ''>a&lt;b&amp;c</serial>'',
         ''</serials>'']"
    by (rule trans)
  with p d b show ?thesis by blast
qed

text \<open>
  The claim as it is written fails at a serial number with a line feed inside: the one
  element takes two lines, the second of them not indented.
\<close>

theorem generate_xml_layout_counterexample:
  "generate_xml_from_chunk [multi_line_row] ''X'' 1 = Inr multi_line_document \<and>
   split_nl multi_line_document =
     [xml_declaration, ''<serials>'',
      ''  <serial Model='' @ [DQ] @ ''X'' @ [DQ] @ '' Manufacturer='' @ [DQ] @ ''Unknown'' @ [DQ] @ ''>A'',
      ''B</serial>'', ''</serials>'']"
  by code_simp

subsection \<open>Reading the document back\<close>

















section \<open>Properties of the orchestrator\<close>

lemma digit_char_inj:
  assumes "a < 10" "b < 10" "digit_char a = digit_char b"
  shows "a = b"
proof -
  from assms(3) have "(48 + a) mod 256 = (48 + b) mod 256"
    unfolding digit_char_def by (simp only: char_of_quasi_inj)
  moreover have "(48 + a) mod 256 = 48 + a" using assms(1) by (intro mod_less) linarith
  moreover have "(48 + b) mod 256 = 48 + b" using assms(2) by (intro mod_less) linarith
  ultimately show ?thesis by linarith
qed

lemma str_nat_nonempty: "str_nat n \<noteq> []"
  by (subst str_nat.simps) simp

lemma str_nat_inj: "str_nat a = str_nat b \<Longrightarrow> a = b"
proof (induction a arbitrary: b rule: str_nat.induct)
  case (1 a)
  show ?case
  proof (cases "a < 10")
    case True
    note a = this
    show ?thesis
    proof (cases "b < 10")
      case True
      with a "1.prems" show ?thesis
        by (subst (asm) str_nat.simps, subst (asm) (2) str_nat.simps) (simp add: digit_char_inj)
    next
      case False
      with a "1.prems" str_nat_nonempty[of "b div 10"] show ?thesis
        by (subst (asm) str_nat.simps, subst (asm) (2) str_nat.simps) simp
    qed
  next
    case False
    note a = this
    show ?thesis
    proof (cases "b < 10")
      case True
      with a "1.prems" str_nat_nonempty[of "a div 10"] show ?thesis
        by (subst (asm) str_nat.simps, subst (asm) (2) str_nat.simps) simp
    next
      case False
      with a "1.prems" have e: "str_nat (a div 10) = str_nat (b div 10)"
        and d: "digit_char (a mod 10) = digit_char (b mod 10)"
        by (subst (asm) str_nat.simps, subst (asm) (2) str_nat.simps, simp)+
      from "1.IH"[OF a e] have "a div 10 = b div 10" .
      moreover from d have "a mod 10 = b mod 10" by (intro digit_char_inj) simp_all
      ultimately show ?thesis by (metis div_mult_mod_eq)
    qed
  qed
qed


lemma update_fresh: "k \<notin> fst ` set al \<Longrightarrow> AList.update k v al = al @ [(k, v)]"
  by (induction al) auto

lemma render_chunks_enum:
  "render_chunks m k chunks acc = Inr files \<Longrightarrow>
   \<exists>docs. list_all2 (\<lambda>c (i, d). generate_xml_from_chunk c m i = Inr d) chunks (enumerate k docs) \<and>
          files = acc @ map (\<lambda>(i, d). (chunk_filename m i, d)) (enumerate k docs)"
proof (induction chunks arbitrary: k acc)
  case Nil
  then have "files = acc" by simp
  then have "list_all2 (\<lambda>c (i, d). generate_xml_from_chunk c m i = Inr d) [] (enumerate k []) \<and>
             files = acc @ map (\<lambda>(i, d). (chunk_filename m i, d)) (enumerate k [])" by simp
  then show ?case by blast
next
  case (Cons c chunks)
  from Cons.prems obtain d where d: "generate_xml_from_chunk c m k = Inr d"
    and r: "render_chunks m (Suc k) chunks (acc @ [(chunk_filename m k, d)]) = Inr files"
    by (auto split: sum.splits)
  from Cons.IH[OF r] obtain docs where
    a: "list_all2 (\<lambda>c (i, d). generate_xml_from_chunk c m i = Inr d) chunks (enumerate (Suc k) docs)"
    and f: "files = (acc @ [(chunk_filename m k, d)]) @
                    map (\<lambda>(i, d). (chunk_filename m i, d)) (enumerate (Suc k) docs)"
    by blast
  have "list_all2 (\<lambda>c (i, d). generate_xml_from_chunk c m i = Inr d) (c # chunks)
          (enumerate k (d # docs))"
    using a d by simp
  moreover have "files = acc @ map (\<lambda>(i, d). (chunk_filename m i, d)) (enumerate k (d # docs))"
    using f by simp
  ultimately show ?case by blast
qed

lemma process_models_char:
  assumes "process_models df ms acc = Inr d" "distinct ms" "\<forall>m \<in> set ms. m \<notin> fst ` set acc"
  shows "\<exists>new. d = acc @ new \<and> map fst new = filter (has_chunks df) ms \<and>
               (\<forall>(m, files) \<in> set new. rendered df m files)"
  using assms
proof (induction ms arbitrary: acc)
  case Nil
  then show ?case by simp
next
  case (Cons m ms)
  from Cons.prems(1) obtain chunks where
    c: "create_chunks df m ALLOWED_VERSIONS CHUNK_SIZE = Inr chunks"
    by (auto split: sum.splits)
  show ?case
  proof (cases "chunks = []")
    case True
    with c Cons.prems(1) have p: "process_models df ms acc = Inr d" by simp
    have h: "\<not> has_chunks df m" using c True by (simp add: has_chunks_def)
    from Cons.IH[OF p] Cons.prems(2,3) obtain new where
      "d = acc @ new" "map fst new = filter (has_chunks df) ms"
      "\<forall>(m, files) \<in> set new. rendered df m files"
      by auto
    with h show ?thesis by auto
  next
    case False
    with c Cons.prems(1) obtain files where
      r: "render_chunks m 1 chunks [] = Inr files"
      and p: "process_models df ms (AList.update m files acc) = Inr d"
      by (auto split: sum.splits)
    have h: "has_chunks df m" using c False by (simp add: has_chunks_def)
    have fresh: "m \<notin> fst ` set acc" using Cons.prems(3) by simp
    have u: "AList.update m files acc = acc @ [(m, files)]" by (rule update_fresh[OF fresh])
    have "\<forall>m' \<in> set ms. m' \<notin> fst ` set (acc @ [(m, files)])"
      using Cons.prems(2,3) by auto
    with Cons.IH[of "acc @ [(m, files)]"] p u Cons.prems(2) obtain new where
      n: "d = (acc @ [(m, files)]) @ new" "map fst new = filter (has_chunks df) ms"
      "\<forall>(m, files) \<in> set new. rendered df m files"
      by auto
    have "rendered df m files" using c False r by (auto simp add: rendered_def)
    with n h have "d = acc @ ((m, files) # new) \<and>
                   map fst ((m, files) # new) = filter (has_chunks df) (m # ms) \<and>
                   (\<forall>(m, files) \<in> set ((m, files) # new). rendered df m files)"
      by simp
    then show ?thesis by blast
  qed
qed

lemma rendered_files:
  assumes "rendered df m files"
  shows "\<exists>chunks docs. create_chunks df m ALLOWED_VERSIONS CHUNK_SIZE = Inr chunks \<and> chunks \<noteq> [] \<and>
           length docs = length chunks \<and>
           list_all2 (\<lambda>c (i, d). generate_xml_from_chunk c m i = Inr d) chunks (enumerate 1 docs) \<and>
           files = map (\<lambda>(i, d). (chunk_filename m i, d)) (enumerate 1 docs)"
proof -
  from assms obtain chunks where
    c: "create_chunks df m ALLOWED_VERSIONS CHUNK_SIZE = Inr chunks" "chunks \<noteq> []"
    and r: "render_chunks m 1 chunks [] = Inr files"
    by (auto simp add: rendered_def)
  from render_chunks_enum[OF r] obtain docs where
    a: "list_all2 (\<lambda>c (i, d). generate_xml_from_chunk c m i = Inr d) chunks (enumerate 1 docs)"
    and f: "files = map (\<lambda>(i, d). (chunk_filename m i, d)) (enumerate 1 docs)"
    by auto
  from a have "length chunks = length docs" by (auto dest: list_all2_lengthD)
  with c a f show ?thesis by auto
qed

lemma process_data_to_xml_char:
  assumes "process_data_to_xml df = Inr d"
  shows "map fst d = filter (has_chunks df) DEVICE_MODELS"
    and "\<forall>(m, files) \<in> set d. rendered df m files"
proof -
  have dm: "distinct DEVICE_MODELS" by (simp add: DEVICE_MODELS_def)
  from process_models_char[of df DEVICE_MODELS "[]" d] assms dm
  show "map fst d = filter (has_chunks df) DEVICE_MODELS"
    and "\<forall>(m, files) \<in> set d. rendered df m files"
    by (auto simp add: process_data_to_xml_def)
qed

subsection \<open>A run on 25001 rows of one model\<close>

lemma big_readable: "str_readable big_table"
  by (simp add: str_readable_def big_table_def required_columns_def)

lemma row_6601_passes: "row_passes M ALLOWED_VERSIONS row_6601 \<longleftrightarrow> M = ''JIDU6601''"
proof -
  have "stripped (Device_Model row_6601) = Some ''JIDU6601''"
    "ne_str (stripped (Serial_Number row_6601)) []"
    "ne_str (stripped (Version row_6601)) []"
    "isin (stripped (Version row_6601)) ALLOWED_VERSIONS"
    by code_simp+
  then show ?thesis by (auto simp add: row_passes_def eq_str_def)
qed

lemma row_6401_passes: "row_passes M ALLOWED_VERSIONS row_6401 \<longleftrightarrow> M = ''JIDU6401''"
proof -
  have "stripped (Device_Model row_6401) = Some ''JIDU6401''"
    "ne_str (stripped (Serial_Number row_6401)) []"
    "ne_str (stripped (Version row_6401)) []"
    "isin (stripped (Version row_6401)) ALLOWED_VERSIONS"
    by code_simp+
  then show ?thesis by (auto simp add: row_passes_def eq_str_def)
qed

lemma big_filtered:
  "filter (row_passes M ALLOWED_VERSIONS) (rows big_table) =
     (if M = ''JIDU6401'' then [row_6401] else []) @
     (if M = ''JIDU6601'' then replicate 25001 row_6601 else [])"
  by (simp add: big_table_def row_6601_passes row_6401_passes)


lemma big_chunks:
  "create_chunks big_table M ALLOWED_VERSIONS CHUNK_SIZE =
     Inr (if M = ''JIDU6601'' then [replicate 25000 row_6601, replicate 1 row_6601]
          else if M = ''JIDU6401'' then [[row_6401]] else [])"
proof -
  have s: "(0::int) < 25000" by simp
  note c = create_chunks_readable[OF big_readable s, of M ALLOWED_VERSIONS]
  show ?thesis
  proof (cases "M = ''JIDU6601''")
    case True
    then have f: "filter (row_passes M ALLOWED_VERSIONS) (rows big_table) = replicate 25001 row_6601"
      by (simp add: big_filtered)
    have u: "[0..<(2::nat)] = [0, 1]" by (simp add: upt_rec)
    show ?thesis unfolding CHUNK_SIZE_def c f using True
      by (simp add: u)
  next
    case False
    note n = this
    show ?thesis
    proof (cases "M = ''JIDU6401''")
      case True
      then have f: "filter (row_passes M ALLOWED_VERSIONS) (rows big_table) = [row_6401]"
        by (simp add: big_filtered)
      have u: "[0..<(1 + 25000 - 1) div 25000] = [0]" by (simp add: upt_rec)
      show ?thesis unfolding CHUNK_SIZE_def c f using True by (simp add: u)
    next
      case False
      with n have f: "filter (row_passes M ALLOWED_VERSIONS) (rows big_table) = []"
        by (simp add: big_filtered)
      show ?thesis unfolding CHUNK_SIZE_def c f using n False by simp
    qed
  qed
qed

lemma repeated_rendered:
  assumes "0 < n"
  shows "generate_xml_from_chunk (replicate n row_6601) ''JIDU6601'' k = Inr (repeated_document n)"
proof -
  let ?e = "(''JIDU6601'', ''Speedtech'', ''SN1'')"
  have t: "strip (py_str (Serial_Number row_6601)) = ''SN1''" by code_simp
  have m: "manufacturer_of ''JIDU6601'' = ''Speedtech''" by code_simp
  have es: "serial_elems (replicate n row_6601) ''JIDU6601'' = replicate n ?e"
    by (simp add: serial_elems_eq trimmed_serials_def t m)
  have ne: "replicate n ?e \<noteq> []" using assms by simp
  have ok: "case ?e of (a, f, t) \<Rightarrow>
             list_all xml_char a \<and> LF \<notin> set a \<and> list_all xml_char t \<and> CR \<notin> set t \<and>
             (\<forall>l \<in> set (split_nl t). strip l \<noteq> [])"
    by code_simp
  have "\<forall>e \<in> set (serial_elems (replicate n row_6601) ''JIDU6601''). case e of (a, f, t) \<Rightarrow>
             list_all xml_char a \<and> LF \<notin> set a \<and> list_all xml_char t \<and> CR \<notin> set t \<and>
             (\<forall>l \<in> set (split_nl t). strip l \<noteq> [])"
    unfolding es
  proof (intro ballI)
    fix e assume "e \<in> set (replicate n ?e)"
    then have e: "e = ?e" by simp
    show "case e of (a, f, t) \<Rightarrow>
             list_all xml_char a \<and> LF \<notin> set a \<and> list_all xml_char t \<and> CR \<notin> set t \<and>
             (\<forall>l \<in> set (split_nl t). strip l \<noteq> [])"
      unfolding e by (rule ok)
  qed
  from generate_text_plain[OF this, of k]
  have g: "generate_xml_from_chunk (replicate n row_6601) ''JIDU6601'' k =
           Inr (xml_declaration @ LF #
              (''<serials>'' @ concat (map (\<lambda>e. LF # serial_line e) (replicate n ?e)) @
                   LF # ''</serials>''))"
    unfolding es using ne by (simp only: if_False)
  have l: "serial_line ?e = ''  <serial Model='' @ [DQ] @ ''JIDU6601'' @ [DQ] @
                          '' Manufacturer='' @ [DQ] @ ''Speedtech'' @ [DQ] @ ''>SN1</serial>''"
    by code_simp
  show ?thesis unfolding g repeated_document_def by (simp only: map_replicate l) simp
qed

lemma other_rendered:
  "generate_xml_from_chunk [row_6401] ''JIDU6401'' k =
     Inr (one_serial_document ''JIDU6401'' ''Sercomm'' ''SNX'')"
  by code_simp

lemma big_result: "process_data_to_xml big_table = Inr big_output"
proof -
  have n: "str_nat (Suc 0) = ''1''" "str_nat (Suc (Suc 0)) = ''2''" by code_simp+
  have g: "generate_xml_from_chunk [row_6601] ''JIDU6601'' k = Inr (repeated_document 1)" for k
    using repeated_rendered[of 1 k] by simp
  have r1: "render_chunks ''JIDU6601'' (Suc 0) [replicate 25000 row_6601, [row_6601]] [] =
              Inr [(''JIDU6601_Chunk1.xml'', repeated_document 25000),
                   (''JIDU6601_Chunk2.xml'', repeated_document 1)]"
    by (simp add: repeated_rendered g chunk_filename_def n)
  have r2: "render_chunks ''JIDU6401'' (Suc 0) [[row_6401]] [] =
              Inr [(''JIDU6401_Chunk1.xml'', one_serial_document ''JIDU6401'' ''Sercomm'' ''SNX'')]"
    by (simp add: other_rendered chunk_filename_def n)
  show ?thesis
    unfolding process_data_to_xml_def DEVICE_MODELS_def big_output_def
    by (simp add: big_chunks r1 r2 del: render_chunks.simps)
qed

subsection \<open>The mapping\<close>

text \<open>
  Claim C4. When \<open>process_data_to_xml\<close> returns a mapping, its keys are, in the order of
  declaration, those of the 11 device models for which the chunker, with the global allowed
  versions and chunk size 25000, returns at least one chunk; and the files of a key are,
  chunk by chunk in order, the file name \<open>{model}_Chunk{n}.xml\<close> with \<open>n\<close> counting from 1
  and the document rendered from that chunk. No key has an empty list.
\<close>

theorem process_data_to_xml_mapping:
  assumes "process_data_to_xml df = Inr d"
  shows "length DEVICE_MODELS = 11 \<and>
         map fst d = filter (has_chunks df) DEVICE_MODELS \<and>
         (\<forall>(m, files) \<in> set d.
            \<exists>chunks docs.
              create_chunks df m ALLOWED_VERSIONS 25000 = Inr chunks \<and> chunks \<noteq> [] \<and>
              length files = length chunks \<and> length docs = length chunks \<and>
              (\<forall>i < length chunks.
                 generate_xml_from_chunk (chunks ! i) m (i + 1) = Inr (docs ! i) \<and>
                 files ! i = (m @ ''_Chunk'' @ str_nat (i + 1) @ ''.xml'', docs ! i)))"
proof -
  have l: "length DEVICE_MODELS = 11" by (simp add: DEVICE_MODELS_def)
  have k: "map fst d = filter (has_chunks df) DEVICE_MODELS"
    by (rule process_data_to_xml_char(1)[OF assms])
  have "\<exists>chunks docs.
          create_chunks df m ALLOWED_VERSIONS 25000 = Inr chunks \<and> chunks \<noteq> [] \<and>
          length files = length chunks \<and> length docs = length chunks \<and>
          (\<forall>i < length chunks.
             generate_xml_from_chunk (chunks ! i) m (i + 1) = Inr (docs ! i) \<and>
             files ! i = (m @ ''_Chunk'' @ str_nat (i + 1) @ ''.xml'', docs ! i))"
    if "(m, files) \<in> set d" for m files
  proof -
    from process_data_to_xml_char(2)[OF assms] that have "rendered df m files" by auto
    from rendered_files[OF this] obtain chunks docs where
      c: "create_chunks df m ALLOWED_VERSIONS CHUNK_SIZE = Inr chunks" "chunks \<noteq> []"
      and len: "length docs = length chunks"
      and a: "list_all2 (\<lambda>c (i, d). generate_xml_from_chunk c m i = Inr d) chunks (enumerate 1 docs)"
      and f: "files = map (\<lambda>(i, d). (chunk_filename m i, d)) (enumerate 1 docs)"
      by blast
    have lf: "length files = length chunks" using f len by simp
    have "generate_xml_from_chunk (chunks ! i) m (i + 1) = Inr (docs ! i) \<and>
          files ! i = (m @ ''_Chunk'' @ str_nat (i + 1) @ ''.xml'', docs ! i)"
      if i: "i < length chunks" for i
    proof -
      have e: "enumerate 1 docs ! i = (1 + i, docs ! i)"
        using i len by (simp add: nth_enumerate_eq)
      from list_all2_nthD[OF a i] e
      have "generate_xml_from_chunk (chunks ! i) m (i + 1) = Inr (docs ! i)" by simp
      moreover have "files ! i = (chunk_filename m (1 + i), docs ! i)"
        using f i len e by simp
      ultimately show ?thesis by (simp add: chunk_filename_def)
    qed
    with c lf len show ?thesis unfolding CHUNK_SIZE_def by blast
  qed
  with l k show ?thesis by blast
qed

text \<open>
  On the table with one row of model \<open>JIDU6401\<close> followed by 25001 rows of model
  \<open>JIDU6601\<close>, the keys are \<open>JIDU6601\<close>, \<open>JIDU6401\<close>, in the order of declaration and not
  of the alphabet or of the rows; \<open>JIDU6601\<close> has two chunks, of 25000 rows and of one row,
  in the files \<open>JIDU6601_Chunk1.xml\<close> and \<open>JIDU6601_Chunk2.xml\<close>.
\<close>

theorem process_data_to_xml_mapping_witness:
  "process_data_to_xml big_table = Inr big_output \<and>
   map fst big_output = [''JIDU6601'', ''JIDU6401''] \<and>
   filter (has_chunks big_table) DEVICE_MODELS = [''JIDU6601'', ''JIDU6401''] \<and>
   (\<exists>chunks docs.
      create_chunks big_table ''JIDU6601'' ALLOWED_VERSIONS 25000 = Inr chunks \<and>
      map length chunks = [25000, 1] \<and> length docs = 2 \<and>
      generate_xml_from_chunk (chunks ! 0) ''JIDU6601'' 1 = Inr (docs ! 0) \<and>
      generate_xml_from_chunk (chunks ! 1) ''JIDU6601'' 2 = Inr (docs ! 1) \<and>
      (''JIDU6601_Chunk1.xml'', repeated_document 25000) =
        (''JIDU6601'' @ ''_Chunk'' @ str_nat 1 @ ''.xml'', docs ! 0) \<and>
      (''JIDU6601_Chunk2.xml'', repeated_document 1) =
        (''JIDU6601'' @ ''_Chunk'' @ str_nat 2 @ ''.xml'', docs ! 1))"
proof -
  let ?files = "[(''JIDU6601_Chunk1.xml'', repeated_document 25000),
                 (''JIDU6601_Chunk2.xml'', repeated_document 1)]"
  let ?Q = "\<lambda>m files. \<exists>chunks docs.
        create_chunks big_table m ALLOWED_VERSIONS 25000 = Inr chunks \<and> chunks \<noteq> [] \<and>
        length files = length chunks \<and> length docs = length chunks \<and>
        (\<forall>i < length chunks.
           generate_xml_from_chunk (chunks ! i) m (i + 1) = Inr (docs ! i) \<and>
           files ! i = (m @ ''_Chunk'' @ str_nat (i + 1) @ ''.xml'', docs ! i))"
  note e = big_result
  note t = process_data_to_xml_mapping[OF e]
  have mk: "map fst big_output = [''JIDU6601'', ''JIDU6401'']" by (simp add: big_output_def)
  from t have k: "map fst big_output = filter (has_chunks big_table) DEVICE_MODELS" by blast
  from k mk have kk: "filter (has_chunks big_table) DEVICE_MODELS = [''JIDU6601'', ''JIDU6401'']"
    by simp
  from t have b: "\<forall>(m, files) \<in> set big_output. ?Q m files" by blast
  have "(''JIDU6601'', ?files) \<in> set big_output" by (simp add: big_output_def)
  from bspec[OF b this] have "?Q ''JIDU6601'' ?files" by (simp only: prod.case)
  then obtain chunks docs where
    c: "create_chunks big_table ''JIDU6601'' ALLOWED_VERSIONS 25000 = Inr chunks"
    and l: "length ?files = length chunks" "length docs = length chunks"
    and a: "\<forall>i < length chunks.
           generate_xml_from_chunk (chunks ! i) ''JIDU6601'' (i + 1) = Inr (docs ! i) \<and>
           ?files ! i = (''JIDU6601'' @ ''_Chunk'' @ str_nat (i + 1) @ ''.xml'', docs ! i)"
    by blast
  have "create_chunks big_table ''JIDU6601'' ALLOWED_VERSIONS 25000 =
          Inr [replicate 25000 row_6601, replicate 1 row_6601]"
    using big_chunks[of "''JIDU6601''"] by (simp add: CHUNK_SIZE_def)
  with c have "chunks = [replicate 25000 row_6601, replicate 1 row_6601]" by simp
  then have ml: "map length chunks = [25000, 1]" by simp
  from l have l2: "length chunks = 2" "length docs = 2" by simp_all
  then have "0 < length chunks" "1 < length chunks" by simp_all
  have z: "(0::nat) + 1 = 1" "(1::nat) + 1 = 2" by simp_all
  have f0: "?files ! 0 = (''JIDU6601_Chunk1.xml'', repeated_document 25000)" by simp
  have f1: "?files ! 1 = (''JIDU6601_Chunk2.xml'', repeated_document 1)" by simp
  with a have "generate_xml_from_chunk (chunks ! 0) ''JIDU6601'' (0 + 1) = Inr (docs ! 0) \<and>
           ?files ! 0 = (''JIDU6601'' @ ''_Chunk'' @ str_nat (0 + 1) @ ''.xml'', docs ! 0)"
    and "generate_xml_from_chunk (chunks ! 1) ''JIDU6601'' (1 + 1) = Inr (docs ! 1) \<and>
           ?files ! 1 = (''JIDU6601'' @ ''_Chunk'' @ str_nat (1 + 1) @ ''.xml'', docs ! 1)"
    using \<open>0 < length chunks\<close> \<open>1 < length chunks\<close> by blast+
  then have q0: "generate_xml_from_chunk (chunks ! 0) ''JIDU6601'' 1 = Inr (docs ! 0) \<and>
           (''JIDU6601_Chunk1.xml'', repeated_document 25000) =
             (''JIDU6601'' @ ''_Chunk'' @ str_nat 1 @ ''.xml'', docs ! 0)"
    and q1: "generate_xml_from_chunk (chunks ! 1) ''JIDU6601'' 2 = Inr (docs ! 1) \<and>
           (''JIDU6601_Chunk2.xml'', repeated_document 1) =
             (''JIDU6601'' @ ''_Chunk'' @ str_nat 2 @ ''.xml'', docs ! 1)"
    unfolding z f0 f1 by blast+
  have g0: "generate_xml_from_chunk (chunks ! 0) ''JIDU6601'' 1 = Inr (docs ! 0)"
    and n0: "(''JIDU6601_Chunk1.xml'', repeated_document 25000) =
             (''JIDU6601'' @ ''_Chunk'' @ str_nat 1 @ ''.xml'', docs ! 0)"
    and g1: "generate_xml_from_chunk (chunks ! 1) ''JIDU6601'' 2 = Inr (docs ! 1)"
    and n1: "(''JIDU6601_Chunk2.xml'', repeated_document 1) =
             (''JIDU6601'' @ ''_Chunk'' @ str_nat 2 @ ''.xml'', docs ! 1)"
    by (rule q0[THEN conjunct1], rule q0[THEN conjunct2], rule q1[THEN conjunct1],
        rule q1[THEN conjunct2])
  have "\<exists>chunks docs.
      create_chunks big_table ''JIDU6601'' ALLOWED_VERSIONS 25000 = Inr chunks \<and>
      map length chunks = [25000, 1] \<and> length docs = 2 \<and>
      generate_xml_from_chunk (chunks ! 0) ''JIDU6601'' 1 = Inr (docs ! 0) \<and>
      generate_xml_from_chunk (chunks ! 1) ''JIDU6601'' 2 = Inr (docs ! 1) \<and>
      (''JIDU6601_Chunk1.xml'', repeated_document 25000) =
        (''JIDU6601'' @ ''_Chunk'' @ str_nat 1 @ ''.xml'', docs ! 0) \<and>
      (''JIDU6601_Chunk2.xml'', repeated_document 1) =
        (''JIDU6601'' @ ''_Chunk'' @ str_nat 2 @ ''.xml'', docs ! 1)"
    using c ml l2(2) g0 g1 n0 n1 by (intro exI[of _ chunks] exI[of _ docs] conjI)
  with e mk kk show ?thesis by (intro conjI)
qed

section \<open>Properties of the archiver\<close>

lemma write_files_ok:
  "list_all (\<lambda>(fn, doc). fn \<noteq> [] \<and> NUL \<notin> set fn) files \<Longrightarrow>
   write_files z files = Inr (z @ map entry_of files)"
proof (induction files arbitrary: z)
  case Nil
  show ?case by simp
next
  case (Cons p files)
  obtain fn doc where p: "p = (fn, doc)" by (cases p)
  from Cons.prems p have fn: "fn \<noteq> []" "NUL \<notin> set fn"
    and rest: "list_all (\<lambda>(fn, doc). fn \<noteq> [] \<and> NUL \<notin> set fn) files" by simp_all
  have t: "takeWhile (\<lambda>c. c \<noteq> NUL) fn = fn"
    using fn(2) by (simp add: takeWhile_eq_all_conv) metis
  have "writestr z fn doc = Inr (z @ [(fn, utf8_encode doc)])"
    using fn(1) by (simp add: writestr_def t)
  with Cons.IH[OF rest] show ?case by (simp add: p entry_of_def)
qed

lemma write_models_ok:
  "well_named d \<Longrightarrow> write_models z d = Inr (z @ map entry_of (concat (map snd d)))"
proof (induction d arbitrary: z)
  case Nil
  show ?case by simp
next
  case (Cons p d)
  obtain m files where p: "p = (m, files)" by (cases p)
  from Cons.prems p have f: "list_all (\<lambda>(fn, doc). fn \<noteq> [] \<and> NUL \<notin> set fn) files"
    and rest: "well_named d" by (simp_all add: well_named_def)
  from write_files_ok[OF f] Cons.IH[OF rest] show ?case by (simp add: p)
qed

text \<open>
  The loops of \<open>create_zip_file\<close> call \<open>writestr\<close> once for every pair, in order; with
  names that are not empty and free of NUL no call raises.
\<close>

lemma create_zip_file_entries:
  "create_zip_file [] = Inr [] \<and>
   (well_named d \<longrightarrow> create_zip_file d = Inr (map entry_of (concat (map snd d))))"
  using write_models_ok[of d "[]"] by (simp add: create_zip_file_def)

section \<open>File names\<close>

lemma digit_char_not_nul:
  assumes "d < 10"
  shows "digit_char d \<noteq> NUL"
proof
  assume "digit_char d = NUL"
  then have "(of_char (char_of (48 + d)) :: nat) = of_char NUL" by (simp only: digit_char_def)
  moreover have "(of_char (char_of (48 + d)) :: nat) = (48 + d) mod 256" by (simp only: of_char_of)
  moreover have "(48 + d) mod 256 = 48 + d" using assms by (intro mod_less) linarith
  moreover have "(of_char NUL :: nat) = 0" by simp
  ultimately show False by linarith
qed

lemma str_nat_no_nul: "NUL \<notin> set (str_nat n)"
proof (induction n rule: str_nat.induct)
  case (1 n)
  show ?case
  proof (cases "n < 10")
    case True
    then show ?thesis using digit_char_not_nul[of n] by (subst str_nat.simps) auto
  next
    case False
    have "n mod 10 < 10" by simp
    from digit_char_not_nul[OF this] "1.IH"[OF False] False show ?thesis
      by (subst str_nat.simps) auto
  qed
qed

lemma models_plain: "\<forall>m \<in> set DEVICE_MODELS. length m = 8 \<and> NUL \<notin> set m"
  by (simp add: DEVICE_MODELS_def)

lemma chunk_filename_ok:
  assumes "m \<in> set DEVICE_MODELS"
  shows "chunk_filename m i \<noteq> [] \<and> NUL \<notin> set (chunk_filename m i)"
  using assms models_plain str_nat_no_nul[of i] by (auto simp add: chunk_filename_def)

lemma chunk_filename_inj:
  assumes "length m = length m'" "chunk_filename m i = chunk_filename m' j"
  shows "m = m' \<and> i = j"
proof -
  from assms have m: "m = m'" and r: "''_Chunk'' @ str_nat i @ ''.xml'' = ''_Chunk'' @ str_nat j @ ''.xml''"
    unfolding chunk_filename_def by (simp_all del: append.simps)
  from r have "str_nat i = str_nat j" by simp
  with m show ?thesis by (simp add: str_nat_inj)
qed


lemma rendered_names:
  assumes "rendered df m files"
  shows "\<exists>n. map fst files = map (chunk_filename m) [1..<n]"
proof -
  from rendered_files[OF assms] obtain docs where
    f: "files = map (\<lambda>(i, d). (chunk_filename m i, d)) (enumerate 1 docs)" by blast
  have "map fst (map (\<lambda>(i, d). (chunk_filename m i, d)) xs) = map (chunk_filename m) (map fst xs)"
    for xs :: "(nat \<times> string) list"
    by (induction xs) auto
  then have "map fst files = map (chunk_filename m) (map fst (enumerate 1 docs))"
    unfolding f .
  then have "map fst files = map (chunk_filename m) [1..<1 + length docs]"
    by (simp only: map_fst_enumerate)
  then show ?thesis by blast
qed

lemma distinct_numbered: "distinct (map (chunk_filename m) [a..<b])"
proof -
  have "inj_on (chunk_filename m) (set [a..<b])"
    by (rule inj_onI) (auto dest: chunk_filename_inj[OF refl])
  then show ?thesis by (simp add: distinct_map)
qed

lemma distinct_filenames:
  assumes "distinct (map fst d)"
    and "\<forall>(m, files) \<in> set d. length m = 8 \<and> (\<exists>n. map fst files = map (chunk_filename m) [1..<n])"
  shows "distinct (concat (map (\<lambda>(m, files). map fst files) d))"
  using assms
proof (induction d)
  case Nil
  show ?case by simp
next
  case (Cons p d)
  obtain m files where p: "p = (m, files)" by (cases p)
  from Cons.prems(2) p obtain n where
    lm: "length m = 8" and fm: "map fst files = map (chunk_filename m) [1..<n]" by auto
  have d1: "distinct (map fst files)" unfolding fm by (rule distinct_numbered)
  have d2: "distinct (concat (map (\<lambda>(m, files). map fst files) d))"
    using Cons.IH Cons.prems by simp
  have fresh: "m \<notin> fst ` set d" using Cons.prems(1) p by simp
  have "set (map fst files) \<inter> set (concat (map (\<lambda>(m, files). map fst files) d)) = {}"
  proof (rule ccontr)
    assume "\<not> ?thesis"
    then obtain x where x1: "x \<in> set (map fst files)"
      and x2: "x \<in> set (concat (map (\<lambda>(m, files). map fst files) d))" by blast
    from x1 fm obtain i where i: "x = chunk_filename m i" by auto
    from x2 obtain m' files' where q: "(m', files') \<in> set d" and x3: "x \<in> set (map fst files')"
      by auto
    from Cons.prems(2) q obtain n' where
      lm': "length m' = 8" and fm': "map fst files' = map (chunk_filename m') [1..<n']" by auto
    from x3 fm' obtain j where j: "x = chunk_filename m' j" by auto
    from lm lm' i j chunk_filename_inj[of m m' i j] have "m = m'" by simp
    with q fresh show False by force
  qed
  with d1 d2 show ?case by (simp add: p)
qed

text \<open>
  Claim C10. The 11 device models are distinct strings of length 8. In a mapping returned by
  \<open>process_data_to_xml\<close> no file name occurs twice, over all models; \<open>create_zip_file\<close>
  then writes the archive without an exception, its entries carry these file names, and no
  two entries share a name.
\<close>

theorem filenames_distinct:
  assumes "process_data_to_xml df = Inr d"
  shows "distinct DEVICE_MODELS \<and> (\<forall>m \<in> set DEVICE_MODELS. length m = 8) \<and>
         distinct (map fst (concat (map snd d))) \<and>
         (\<exists>z. create_zip_file d = Inr z \<and> map fst z = map fst (concat (map snd d)) \<and>
              distinct (map fst z))"
proof -
  have dm: "distinct DEVICE_MODELS" by (simp add: DEVICE_MODELS_def)
  have k: "map fst d = filter (has_chunks df) DEVICE_MODELS"
    by (rule process_data_to_xml_char(1)[OF assms])
  have r: "\<forall>(m, files) \<in> set d. rendered df m files"
    by (rule process_data_to_xml_char(2)[OF assms])
  have keys: "m \<in> set DEVICE_MODELS" if "(m, files) \<in> set d" for m files
  proof -
    from that have "m \<in> set (map fst d)" by force
    then show ?thesis unfolding k by simp
  qed
  have dk: "distinct (map fst d)" unfolding k using dm by simp
  have "\<forall>(m, files) \<in> set d. length m = 8 \<and> (\<exists>n. map fst files = map (chunk_filename m) [1..<n])"
    using keys r models_plain rendered_names by fastforce
  from distinct_filenames[OF dk this]
  have "distinct (concat (map (\<lambda>(m, files). map fst files) d))" .
  moreover have "map fst (concat (map snd d)) = concat (map (\<lambda>(m, files). map fst files) d)"
    by (induction d) auto
  ultimately have dn: "distinct (map fst (concat (map snd d)))" by simp
  have wn: "well_named d"
    unfolding well_named_def list_all_iff
  proof (intro ballI, clarify)
    fix m files fn doc
    assume mf: "(m, files) \<in> set d" and fd: "(fn, doc) \<in> set files"
    from r mf have "rendered df m files" by auto
    from rendered_names[OF this] obtain n where "map fst files = map (chunk_filename m) [1..<n]" ..
    moreover from fd have "fn \<in> set (map fst files)" by force
    ultimately obtain i where "fn = chunk_filename m i" by auto
    with chunk_filename_ok[OF keys[OF mf], of i] show "fn \<noteq> [] \<and> NUL \<notin> set fn" by simp
  qed
  from write_models_ok[OF wn, of "[]"]
  have z: "create_zip_file d = Inr (map entry_of (concat (map snd d)))"
    by (simp add: create_zip_file_def)
  have "map fst (map entry_of xs) = map fst xs" for xs
    by (induction xs) (auto simp add: entry_of_def)
  then have n: "map fst (map entry_of (concat (map snd d))) = map fst (concat (map snd d))" .
  have "create_zip_file d = Inr (map entry_of (concat (map snd d))) \<and>
        map fst (map entry_of (concat (map snd d))) = map fst (concat (map snd d)) \<and>
        distinct (map fst (map entry_of (concat (map snd d))))"
    using z n dn by (simp only: simp_thms)
  then have "\<exists>z. create_zip_file d = Inr z \<and> map fst z = map fst (concat (map snd d)) \<and>
              distinct (map fst z)" by blast
  with dn dm models_plain show ?thesis by blast
qed

theorem filenames_distinct_witness:
  "process_data_to_xml two_models_table = Inr two_models_output \<and>
   map fst (concat (map snd two_models_output)) = [''JIDU6601_Chunk1.xml'', ''JIDU6701_Chunk1.xml''] \<and>
   distinct (map fst (concat (map snd two_models_output))) \<and>
   (\<exists>z. create_zip_file two_models_output = Inr z \<and>
        map fst z = map fst (concat (map snd two_models_output)) \<and> distinct (map fst z))"
proof -
  have e: "process_data_to_xml two_models_table = Inr two_models_output" by code_simp
  have n: "map fst (concat (map snd two_models_output)) =
             [''JIDU6601_Chunk1.xml'', ''JIDU6701_Chunk1.xml'']"
    by (simp add: two_models_output_def)
  from filenames_distinct[OF e] e n show ?thesis by blast
qed

section \<open>Values that are not strings\<close>

text \<open>
  Claim C7, at a table whose serial numbers are all numbers, so that the column is not
  string-like. \<open>validate_data\<close> accepts the table. The renderer, given its rows, turns the
  number into its string form. But \<open>create_chunks\<close> raises \<open>AttributeError\<close> at
  \<open>.str\<close>, and so does the whole of \<open>process_data_to_xml\<close>.
\<close>

theorem numeric_serials_rejected:
  "validate_data numeric_serial_table = (True, ''Data validated successfully'') \<and>
   generate_xml_from_chunk (rows numeric_serial_table) ''JIDU6601'' 1 =
     Inr (one_serial_document ''JIDU6601'' ''Speedtech'' ''123456'') \<and>
   create_chunks numeric_serial_table ''JIDU6601'' ALLOWED_VERSIONS CHUNK_SIZE = Inl AttributeError \<and>
   process_data_to_xml numeric_serial_table = Inl AttributeError"
  by code_simp

text \<open>
  Claim C1, at a table read from a file in which one serial number cell is empty. pandas
  loads the empty cell as the missing value, not as a string. The filter of
  \<open>create_chunks\<close> drops the row whose serial number is a string of blanks, as the claim
  says; but the row with the missing serial number passes the test \<open>!= ''\<close>, is put into
  the chunk, and the renderer writes \<open>nan\<close> as its serial number.
\<close>

theorem blank_serial_cell_kept:
  "validate_data blank_cell_table = (True, ''Data validated successfully'') \<and>
   create_chunks blank_cell_table ''JIDU6601'' ALLOWED_VERSIONS CHUNK_SIZE =
     Inr [[\<lparr>Device_Model = Str '' JIDU6601 '', Serial_Number = NonStr ''nan'',
            Version = Str ''R2.0.19 ''\<rparr>,
           \<lparr>Device_Model = Str ''JIDU6601'', Serial_Number = Str ''SN1'',
            Version = Str ''R2.0.19''\<rparr>]] \<and>
   process_data_to_xml blank_cell_table =
     Inr [(''JIDU6601'', [(''JIDU6601_Chunk1.xml'', nan_document)])]"
  by code_simp

end
